theory Spec2Isabelle
  imports Complex_Main "HOL-Library.Word"
begin

unbundle bit_operations_syntax

section \<open>Common data: bytes, Python exceptions, \<open>struct.pack\<close>\<close>

type_synonym byte = "8 word"

text \<open>
  The exceptions the modelled code can raise. \<open>StructError\<close> is Python's
  \<open>struct.error\<close> (a value that does not fit the format), \<open>NLAError\<close> is the
  \<open>Exception\<close> of \<open>validate_all_nla_tracks\<close> with the object's name and its number of
  active tracks, \<open>RecursionError\<close> is raised when the interpreter's recursion limit is
  reached, \<open>OtherError\<close> stands for an exception raised by a collaborator
  (translation of the scene, file I/O).
\<close>

datatype m3g_error =
    StructError
  | IndexError
  | ValueError
  | RecursionError
  | NLAError string nat
  | OtherError string

text \<open>\<open>struct.pack('<I', n)\<close>: four bytes, least significant first; raises outside \<open>0 .. 2^32 - 1\<close>.\<close>

definition le_bytes4 :: "int \<Rightarrow> byte list" where
  "le_bytes4 n = [word_of_int n, word_of_int (n div 256),
                  word_of_int (n div 65536), word_of_int (n div 16777216)]"

definition pack_I :: "int \<Rightarrow> m3g_error + byte list" where
  "pack_I n = (if 0 \<le> n \<and> n < 4294967296 then Inr (le_bytes4 n) else Inl StructError)"

text \<open>\<open>struct.pack('<B', n)\<close>: one byte; raises outside \<open>0 .. 255\<close>.\<close>

definition pack_B :: "int \<Rightarrow> m3g_error + byte list" where
  "pack_B n = (if 0 \<le> n \<and> n < 256 then Inr [word_of_int n] else Inl StructError)"

text \<open>\<open>struct.pack('<BI', t, n)\<close> and \<open>struct.pack('<BII', c, t, u)\<close>.\<close>

definition pack_BI :: "int \<Rightarrow> int \<Rightarrow> m3g_error + byte list" where
  "pack_BI t n =
     (case pack_B t of Inl e \<Rightarrow> Inl e | Inr b \<Rightarrow>
      (case pack_I n of Inl e \<Rightarrow> Inl e | Inr l \<Rightarrow> Inr (b @ l)))"

definition pack_BII :: "int \<Rightarrow> int \<Rightarrow> int \<Rightarrow> m3g_error + byte list" where
  "pack_BII c t u =
     (case pack_B c of Inl e \<Rightarrow> Inl e | Inr b \<Rightarrow>
      (case pack_I t of Inl e \<Rightarrow> Inl e | Inr l1 \<Rightarrow>
       (case pack_I u of Inl e \<Rightarrow> Inl e | Inr l2 \<Rightarrow> Inr (b @ l1 @ l2))))"

text \<open>Reading a little-endian unsigned 32-bit field back (what a reader of the file does).\<close>

definition read_u32 :: "byte list \<Rightarrow> int" where
  "read_u32 bs = (case bs of
       [b0, b1, b2, b3] \<Rightarrow> uint b0 + 256 * uint b1 + 65536 * uint b2 + 16777216 * uint b3
     | _ \<Rightarrow> 0)"

section \<open>Binary section framer: \<open>M3GSectionObject\<close>, \<open>M3GSection\<close>\<close>

text \<open>
  What the framer reads from an exportable object: its \<open>ObjectType\<close> attribute and the
  bytes its \<open>getData()\<close> returns.
\<close>

record m3g_serial =
  ObjectType :: int
  getData :: "byte list"

record M3GSectionObject =
  so_ObjectType :: int
  so_data :: "byte list"
  so_length :: int

definition M3GSectionObject_init :: "m3g_serial \<Rightarrow> M3GSectionObject" where
  "M3GSectionObject_init aObject =
     \<lparr>so_ObjectType = ObjectType aObject, so_data = getData aObject,
      so_length = int (length (getData aObject))\<rparr>"

definition M3GSectionObject_getData :: "M3GSectionObject \<Rightarrow> m3g_error + byte list" where
  "M3GSectionObject_getData so =
     (case pack_BI (so_ObjectType so) (so_length so) of
        Inl e \<Rightarrow> Inl e
      | Inr hdr \<Rightarrow> Inr (hdr @ so_data so))"

record M3GSection =
  CompressionScheme :: int
  TotalSectionLength :: int
  UncompressedLength :: int
  Objects :: "byte list"
  Checksum :: int

text \<open>The loop of \<open>M3GSection.__init__\<close>: \<open>self.Objects += lObject.getData()\<close> per element.\<close>

fun collect_objects :: "m3g_serial list \<Rightarrow> byte list \<Rightarrow> m3g_error + byte list" where
  "collect_objects [] acc = Inr acc"
| "collect_objects (element # rest) acc =
     (case M3GSectionObject_getData (M3GSectionObject_init element) of
        Inl e \<Rightarrow> Inl e
      | Inr objData \<Rightarrow> collect_objects rest (acc @ objData))"

definition M3GSection_init :: "m3g_serial list \<Rightarrow> m3g_error + M3GSection" where
  "M3GSection_init aObjectList =
     (case collect_objects aObjectList [] of
        Inl e \<Rightarrow> Inl e
      | Inr objs \<Rightarrow>
          Inr \<lparr>CompressionScheme = 0,
               TotalSectionLength = 13 + int (length objs),
               UncompressedLength = int (length objs),
               Objects = objs,
               Checksum = 0\<rparr>)"

text \<open>\<open>ownAdler32\<close>: the loop body and the loop over the bytes of \<open>data\<close>.\<close>

definition adler_step :: "byte \<Rightarrow> int \<times> int \<Rightarrow> int \<times> int" where
  "adler_step n s =
     (let s1 = (fst s + uint n) mod 65521;
          s2 = (snd s + s1) mod 65521
      in (s1, s2))"

definition ownAdler32 :: "byte list \<Rightarrow> int" where
  "ownAdler32 data =
     (let s = fold adler_step data (1, 0)
      in push_bit 16 (snd s) + fst s)"

text \<open>
  \<open>M3GSection.getData\<close>: returns the bytes and the section with \<open>Checksum\<close> updated.
\<close>

definition M3GSection_getData :: "M3GSection \<Rightarrow> m3g_error + (byte list \<times> M3GSection)" where
  "M3GSection_getData sec =
     (case pack_BII (CompressionScheme sec) (TotalSectionLength sec) (UncompressedLength sec) of
        Inl e \<Rightarrow> Inl e
      | Inr hdr \<Rightarrow>
          (let data = hdr @ Objects sec;
               sec' = sec\<lparr>Checksum := ownAdler32 data\<rparr>
           in case pack_I (Checksum sec') of
                Inl e \<Rightarrow> Inl e
              | Inr ck \<Rightarrow> Inr (data @ ck, sec')))"

definition M3GSection_getLength :: "M3GSection \<Rightarrow> int" where
  "M3GSection_getLength sec = TotalSectionLength sec"

text \<open>
  The record of one object as the claim words it: type tag, 4-byte payload length,
  payload. Used to state what \<open>Objects\<close> holds.
\<close>

definition object_record :: "m3g_serial \<Rightarrow> byte list" where
  "object_record obj =
     word_of_int (ObjectType obj) # le_bytes4 (int (length (getData obj))) @ getData obj"

text \<open>
  The Adler-32 checksum as the specification words it: two accumulators, \<open>s1\<close> from 1 and
  \<open>s2\<close> from 0, each reduced modulo 65521 at every input byte, combined as
  \<open>(s2 << 16) | s1\<close>.
\<close>

fun adler32_spec_loop :: "byte list \<Rightarrow> int \<Rightarrow> int \<Rightarrow> int \<times> int" where
  "adler32_spec_loop [] s1 s2 = (s1, s2)"
| "adler32_spec_loop (b # bs) s1 s2 =
     adler32_spec_loop bs ((s1 + uint b) mod 65521) ((s2 + (s1 + uint b) mod 65521) mod 65521)"

definition adler32_spec :: "byte list \<Rightarrow> int" where
  "adler32_spec bs = (case adler32_spec_loop bs 1 0 of (s1, s2) \<Rightarrow> push_bit 16 s2 OR s1)"

section \<open>Face triangulation: \<open>M3GTranslator.translateFaces\<close>\<close>

record M3GTriangleStripArray =
  indices :: "nat list"
  stripLengths :: "nat list"

text \<open>
  A polygon of the source mesh: \<open>vertices\<close> are its source vertex numbers. Its other
  attributes (normal, smoothness, loop indices) are read only where a face vertex is
  resolved to a vertex-buffer index.
\<close>

record face =
  vertices :: "nat list"

text \<open>
  The body of the inner loop \<open>for vertexIndex, vertex in enumerate(face.vertices)\<close>
  looks for an already emitted vertex-buffer entry of the same source vertex (with
  matching normal and texture coordinates) and appends a new entry when there is none;
  either way it stores one index in \<open>indices[vertexIndex]\<close>. That lookup reads the host
  scene and the vertex arrays; it is the parameter \<open>resolve\<close> here, a function of the
  vertex-array state \<open>'v\<close>, the face, the position in the face and the source vertex
  that returns the index and the new state.
\<close>

type_synonym ('v, 'f) resolver = "'v \<Rightarrow> 'f face_scheme \<Rightarrow> nat \<Rightarrow> nat \<Rightarrow> nat \<times> 'v"

fun resolve_face :: "('v, 'f) resolver \<Rightarrow> 'f face_scheme \<Rightarrow> nat \<Rightarrow> nat list \<Rightarrow> 'v \<Rightarrow> nat list \<times> 'v" where
  "resolve_face resolve f vertexIndex [] st = ([], st)"
| "resolve_face resolve f vertexIndex (vertex # rest) st =
     (case resolve st f vertexIndex vertex of
        (i, st') \<Rightarrow>
          (case resolve_face resolve f (Suc vertexIndex) rest st' of
             (is, st'') \<Rightarrow> (i # is, st'')))"

definition add_strip :: "nat \<Rightarrow> nat list \<Rightarrow> M3GTriangleStripArray \<Rightarrow> M3GTriangleStripArray" where
  "add_strip n is ts = ts\<lparr>stripLengths := stripLengths ts @ [n], indices := indices ts @ is\<rparr>"

text \<open>The \<open>if num_verts == 3 / elif num_verts == 4 / else\<close> at the end of the face loop.\<close>

definition emit_face :: "nat list \<Rightarrow> M3GTriangleStripArray \<Rightarrow> M3GTriangleStripArray" where
  "emit_face ind ts =
     (let num_verts = length ind in
      if num_verts = 3 then add_strip 3 [ind ! 0, ind ! 1, ind ! 2] ts
      else if num_verts = 4 then add_strip 4 [ind ! 1, ind ! 2, ind ! 0, ind ! 3] ts
      else fold (\<lambda>i. add_strip 3 [ind ! 0, ind ! i, ind ! (i + 1)]) [1 ..< num_verts - 1] ts)"

definition translate_face ::
  "('v, 'f) resolver \<Rightarrow> 'f face_scheme \<Rightarrow> 'v \<times> M3GTriangleStripArray \<Rightarrow> 'v \<times> M3GTriangleStripArray" where
  "translate_face resolve f s =
     (case resolve_face resolve f 0 (vertices f) (fst s) of
        (ind, st') \<Rightarrow> (st', emit_face ind (snd s)))"

definition translateFaces ::
  "('v, 'f) resolver \<Rightarrow> 'f face_scheme list \<Rightarrow> 'v \<Rightarrow> 'v \<times> M3GTriangleStripArray" where
  "translateFaces resolve faces st =
     fold (translate_face resolve) faces (st, \<lparr>indices = [], stripLengths = []\<rparr>)"

text \<open>
  The strips a face decomposes into, as the claim words them, from the list of the
  face's vertex-buffer indices: a triangle is one strip of its three indices in order,
  a quad one strip in the order second, third, first, fourth, and a face of five or
  more vertices a fan of triangles around its first vertex, one strip of three
  each. A strip array holding the strips \<open>ss\<close> has the strip lengths \<open>map length ss\<close> and
  the indices \<open>concat ss\<close>.
\<close>

fun fan :: "nat \<Rightarrow> nat list \<Rightarrow> nat list list" where
  "fan a (b # c # rest) = [a, b, c] # fan a (c # rest)"
| "fan a rest = []"

fun face_strips :: "nat list \<Rightarrow> nat list list" where
  "face_strips [a, b, c] = [[a, b, c]]"
| "face_strips [a, b, c, d] = [[b, c, a, d]]"
| "face_strips (a # rest) = fan a rest"
| "face_strips [] = []"

section \<open>Bone runs: \<open>M3GBone.createReferences\<close>\<close>

record M3GBoneReference =
  firstVertex :: int
  vertexCount :: nat

text \<open>\<open>transformNode\<close> is a reference to the bone's \<open>M3GGroup\<close> (\<open>None\<close> at construction).\<close>

record M3GBone =
  verts :: "int list"
  transformNode :: "nat option"
  references :: "M3GBoneReference list"
  weight :: int

definition M3GBone_init :: M3GBone where
  "M3GBone_init = \<lparr>verts = [], transformNode = None, references = [], weight = 0\<rparr>"

text \<open>
  The loop body of \<open>createReferences\<close> on the state \<open>(ref, list, last)\<close>, and the
  \<open>if len(list) > 0: ref.append(...)\<close> that occurs in the loop and after it.
\<close>

definition flush_run :: "M3GBoneReference list \<Rightarrow> int list \<Rightarrow> M3GBoneReference list" where
  "flush_run ref lst =
     (case lst of
        [] \<Rightarrow> ref
      | first # _ \<Rightarrow> ref @ [\<lparr>firstVertex = first, vertexCount = length lst\<rparr>])"

definition run_step ::
  "int \<Rightarrow> M3GBoneReference list \<times> int list \<times> int \<Rightarrow> M3GBoneReference list \<times> int list \<times> int" where
  "run_step vert s =
     (case s of (ref, lst, lastv) \<Rightarrow>
        if vert = lastv + 1 then (ref, lst @ [vert], vert)
        else (flush_run ref lst, [vert], vert))"

text \<open>After the loop: the last \<open>if len(list) > 0: ref.append(...)\<close>, giving the final \<open>ref\<close>.\<close>

definition finish_runs :: "M3GBoneReference list \<times> int list \<times> int \<Rightarrow> M3GBoneReference list" where
  "finish_runs s = (case s of (ref, lst, lastv) \<Rightarrow> flush_run ref lst)"

text \<open>
  \<open>createReferences\<close>: nothing happens on an empty \<open>verts\<close>; otherwise \<open>verts\<close> is sorted
  in place, the loop starts from \<open>last = verts[0] - 1\<close>, and \<open>references\<close> is replaced.
\<close>

definition createReferences :: "M3GBone \<Rightarrow> M3GBone" where
  "createReferences b =
     (case sort (verts b) of
        [] \<Rightarrow> b
      | v0 # vs \<Rightarrow>
          b\<lparr>verts := v0 # vs,
            references := finish_runs (fold run_step (v0 # vs) ([], [], v0 - 1))\<rparr>)"

definition setVerts :: "int list \<Rightarrow> M3GBone \<Rightarrow> M3GBone" where
  "setVerts aVerts b = createReferences (b\<lparr>verts := aVerts\<rparr>)"

text \<open>
  A maximal contiguous index range of a set \<open>S\<close>: the \<open>n > 0\<close> indices from \<open>a\<close> on are
  all in \<open>S\<close>, and neither \<open>a - 1\<close> nor \<open>a + n\<close> is.
\<close>

definition maximal_run :: "int set \<Rightarrow> int \<Rightarrow> nat \<Rightarrow> bool" where
  "maximal_run S a n \<longleftrightarrow>
     0 < n \<and> (\<forall>k \<in> {a ..< a + int n}. k \<in> S) \<and> a - 1 \<notin> S \<and> a + int n \<notin> S"

definition run_pair :: "M3GBoneReference \<Rightarrow> int \<times> nat" where
  "run_pair r = (firstVertex r, vertexCount r)"

section \<open>The object graph and the closure walk: \<open>searchDeep\<close>, \<open>doSearchDeep\<close>\<close>

text \<open>
  Objects live in a store and are addressed by references; two references are the same
  object exactly when they are equal (Python's \<open>self not in alist\<close> compares with
  \<open>==\<close>, which no class of the exporter overrides, so it is identity). An attribute
  that may be \<open>None\<close> is a \<open>ref option\<close>.

  Each class keeps the attributes that hold references to other exportable objects,
  under the source's names (\<open>Image'\<close> for \<open>Image\<close>); \<open>bones\<close> holds the
  \<open>transformNode\<close> of each bone of a skinned mesh. Numeric and colour attributes play no
  part in the walk and are left out.
\<close>

type_synonym ref = nat

datatype m3g_kind =
    ExternalReference (URI: string)
  | Background (backgroundImage: "ref option")
  | Fog
  | Camera
  | Light
  | Material
  | VertexArray
  | PolygonMode
  | TriangleStripArray
  | Image2D
  | AnimationController
  | KeyframeSequence
  | Group (children: "ref list")
  | World (children: "ref list") (activeCamera: "ref option") (background: "ref option")
  | VertexBuffer (positions: "ref option") (normals: "ref option") (colors: "ref option")
      (texCoordArrays: "ref option list")
  | Appearance (compositingMode: "ref option") (fog: "ref option") (polygonMode: "ref option")
      (material: "ref option") (textures: "ref option list")
  | Texture2D (Image': "ref option")
  | AnimationTrack (keyframeSequence: "ref option") (animationController: "ref option")
  | Mesh (vertexBuffer: "ref option") (indexBuffer: "ref option list")
      (appearance: "ref option list")
  | SkinnedMesh (skeleton: "ref option") (vertexBuffer: "ref option")
      (indexBuffer: "ref option list") (appearance: "ref option list") (bones: "ref option list")

text \<open>
  \<open>animationTracks\<close> is the attribute of \<open>M3GObject3D\<close> (every class but
  \<open>M3GExternalReference\<close>, where it is not read); \<open>zReference\<close> and \<open>yReference\<close> are the
  alignment references of \<open>M3GNode\<close>.
\<close>

record m3g_object =
  kind :: m3g_kind
  animationTracks :: "ref option list"
  zReference :: "ref option"
  yReference :: "ref option"

type_synonym heap = "ref \<Rightarrow> m3g_object"

text \<open>
  The references a class's own \<open>searchDeep\<close> hands to \<open>searchDeep\<close>/\<open>doSearchDeep\<close>
  before it calls \<open>super().searchDeep\<close>, in the order of the calls. \<open>M3GGroup\<close> calls
  \<open>element.searchDeep\<close> on each child directly; \<open>M3GSkinnedMesh\<close> searches the skeleton
  and then continues as \<open>M3GMesh\<close>. Classes without an override contribute nothing.
\<close>

fun class_searched :: "m3g_kind \<Rightarrow> ref option list" where
  "class_searched (Group ch) = map Some ch"
| "class_searched (World ch cam bg) = [cam, bg] @ map Some ch"
| "class_searched (VertexBuffer p n c t) = [p, n, c] @ t"
| "class_searched (Appearance cm f pm m t) = [cm, f, pm, m] @ t"
| "class_searched (Texture2D i) = [i]"
| "class_searched (AnimationTrack k c) = [k, c]"
| "class_searched (Mesh vb ib ap) = [vb] @ ib @ ap"
| "class_searched (SkinnedMesh sk vb ib ap bs) = [sk] @ [vb] @ ib @ ap"
| "class_searched _ = []"

text \<open>
  All the references one \<open>searchDeep\<close> call follows: the class's own, then
  \<open>animationTracks\<close> (\<open>M3GObject3D.searchDeep\<close>). \<open>M3GExternalReference.searchDeep\<close>
  follows none.
\<close>

definition searched :: "m3g_object \<Rightarrow> ref option list" where
  "searched obj =
     (case kind obj of
        ExternalReference u \<Rightarrow> []
      | k \<Rightarrow> class_searched k @ animationTracks obj)"

text \<open>
  \<open>searchDeep\<close> and \<open>doSearchDeep\<close>. The recursion of the source has no bound of its
  own: on a cyclic graph it goes on until the interpreter raises \<open>RecursionError\<close>. The
  first argument here bounds the number of nested \<open>searchDeep\<close> calls, and \<open>None\<close> is
  a walk that needs more. This bound is not the interpreter's recursion limit, which
  counts every stack frame: one level of nesting takes between one and four frames
  (\<open>searchDeep\<close> of the class, of its base classes, \<open>doSearchDeep\<close>), on top of the
  frames of the caller. The properties below are stated for every bound from some
  bound on; they say nothing of a graph so deep that the interpreter gives up first.
  \<open>doSearchDeep\<close> skips \<open>None\<close> elements.
\<close>

fun searchDeep :: "nat \<Rightarrow> heap \<Rightarrow> ref \<Rightarrow> ref list \<Rightarrow> ref list option"
  and doSearchDeep :: "nat \<Rightarrow> heap \<Rightarrow> ref option list \<Rightarrow> ref list \<Rightarrow> ref list option" where
  "searchDeep 0 h r alist = None"
| "searchDeep (Suc n) h r alist =
     (case doSearchDeep n h (searched (h r)) alist of
        None \<Rightarrow> None
      | Some l \<Rightarrow> Some (if r \<in> set l then l else l @ [r]))"
| "doSearchDeep n h [] outList = Some outList"
| "doSearchDeep n h (None # inList) outList = doSearchDeep n h inList outList"
| "doSearchDeep n h (Some element # inList) outList =
     (case searchDeep n h element outList of
        None \<Rightarrow> None
      | Some l \<Rightarrow> doSearchDeep n h inList l)"

definition createDeepSearchList :: "nat \<Rightarrow> heap \<Rightarrow> ref \<Rightarrow> ref list option" where
  "createDeepSearchList n h aWorld = searchDeep n h aWorld []"

text \<open>
  The graph the walk follows: \<open>(s, r)\<close> is an edge when \<open>searchDeep\<close> on \<open>r\<close> follows a
  reference to \<open>s\<close>. \<open>reachable h w\<close> are the objects the walk from \<open>w\<close> can get to, and
  \<open>graph_of h w\<close> the edges between them.
\<close>

definition edges :: "heap \<Rightarrow> (ref \<times> ref) set" where
  "edges h = {(s, r). Some s \<in> set (searched (h r))}"

definition reachable :: "heap \<Rightarrow> ref \<Rightarrow> ref set" where
  "reachable h w = {r. (r, w) \<in> (edges h)\<^sup>*}"

definition graph_of :: "heap \<Rightarrow> ref \<Rightarrow> (ref \<times> ref) set" where
  "graph_of h w = {(s, r). (s, r) \<in> edges h \<and> r \<in> reachable h w}"

text \<open>
  Every attribute of an object that holds a reference to another exportable object,
  whether the walk follows it or not: the references whose identifier the class's
  \<open>getData\<close> writes with \<open>getId\<close>, class by class.
\<close>

fun class_refs :: "m3g_kind \<Rightarrow> ref option list" where
  "class_refs (ExternalReference u) = []"
| "class_refs (Background img) = [img]"
| "class_refs Fog = []"
| "class_refs Camera = []"
| "class_refs Light = []"
| "class_refs Material = []"
| "class_refs VertexArray = []"
| "class_refs PolygonMode = []"
| "class_refs TriangleStripArray = []"
| "class_refs Image2D = []"
| "class_refs AnimationController = []"
| "class_refs KeyframeSequence = []"
| "class_refs (Group ch) = map Some ch"
| "class_refs (World ch cam bg) = map Some ch @ [cam, bg]"
| "class_refs (VertexBuffer p n c t) = p # n # c # t"
| "class_refs (Appearance cm f pm m t) = cm # f # pm # m # t"
| "class_refs (Texture2D i) = [i]"
| "class_refs (AnimationTrack k c) = [k, c]"
| "class_refs (Mesh vb ib ap) = vb # ib @ ap"
| "class_refs (SkinnedMesh sk vb ib ap bs) = vb # ib @ ap @ sk # bs"

definition direct_refs :: "m3g_object \<Rightarrow> ref option list" where
  "direct_refs obj =
     (case kind obj of
        ExternalReference u \<Rightarrow> []
      | k \<Rightarrow> class_refs k @ animationTracks obj @ [zReference obj, yReference obj])"

definition ref_edges :: "heap \<Rightarrow> (ref \<times> ref) set" where
  "ref_edges h = {(s, r). Some s \<in> set (direct_refs (h r))}"

text \<open>
  The object graphs the translator builds. \<open>M3GNode.__init__\<close> sets \<open>zReference\<close> and
  \<open>yReference\<close> to \<open>None\<close> and \<open>M3GBackground.__init__\<close> sets \<open>backgroundImage\<close> to
  \<open>None\<close>, and no other statement of the exporter assigns them. \<open>translateArmature\<close>
  makes the \<open>transformNode\<close> of every bone a child of its parent bone's
  \<open>transformNode\<close> or, for a root bone, of the skeleton group, so the bone nodes of a
  skinned mesh are reached from its skeleton through \<open>children\<close>.
\<close>

definition translator_built :: "heap \<Rightarrow> ref \<Rightarrow> bool" where
  "translator_built h w \<longleftrightarrow>
     (\<forall>r\<in>reachable h w.
        zReference (h r) = None \<and> yReference (h r) = None
        \<and> (\<forall>img. kind (h r) = Background img \<longrightarrow> img = None)
        \<and> (\<forall>sk vb ib ap bs b. kind (h r) = SkinnedMesh sk vb ib ap bs \<and> Some b \<in> set bs
              \<longrightarrow> (\<exists>s. sk = Some s \<and> (b, s) \<in> (edges h)\<^sup>*)))"

text \<open>
  The ordering property of an export list \<open>L\<close> with respect to a notion \<open>refs\<close> of the
  references of an object: every object referenced by an element of \<open>L\<close> occurs in \<open>L\<close>
  at an earlier position.
\<close>

definition deps_first :: "heap \<Rightarrow> (m3g_object \<Rightarrow> ref option list) \<Rightarrow> ref list \<Rightarrow> bool" where
  "deps_first h refs L \<longleftrightarrow>
     (\<forall>i < length L. \<forall>s. Some s \<in> set (refs (h (L ! i))) \<longrightarrow> (\<exists>j < i. L ! j = s))"

text \<open>
  An object as its constructor leaves it (\<open>M3GObject3D.__init__\<close>, \<open>M3GNode.__init__\<close>):
  no animation tracks, no alignment references.
\<close>

definition new_object :: "m3g_kind \<Rightarrow> m3g_object" where
  "new_object k = \<lparr>kind = k, animationTracks = [], zReference = None, yReference = None\<rparr>"

text \<open>
  Two stores used as concrete inputs. \<open>scene_heap\<close>: a world (0) with a group (1), a mesh
  (2, also a child of the group), a camera (3) and a background (4); the mesh has a
  vertex buffer (5) with one vertex array (8), a triangle strip array (6) and an
  appearance (7) with a material (9) and a texture (10) on an external image (11).
  \<open>background_image_heap\<close>: a world (0) whose background (1) has an image (2).
  \<open>skinned_heap\<close>: a world (0) with a background (4) and a skinned mesh (1) whose
  skeleton (2) has the bone nodes 3 and, below it, 5.
\<close>

definition scene_heap :: heap where
  "scene_heap r = new_object
     (if r = 0 then World [1, 2] (Some 3) (Some 4)
      else if r = 1 then Group [2]
      else if r = 2 then Mesh (Some 5) [Some 6] [Some 7]
      else if r = 3 then Camera
      else if r = 4 then Background None
      else if r = 5 then VertexBuffer (Some 8) None None []
      else if r = 6 then TriangleStripArray
      else if r = 7 then Appearance None None None (Some 9) [Some 10]
      else if r = 8 then VertexArray
      else if r = 9 then Material
      else if r = 10 then Texture2D (Some 11)
      else if r = 11 then ExternalReference ''tex.png''
      else Material)"

definition skinned_heap :: heap where
  "skinned_heap r = new_object
     (if r = 0 then World [1] None (Some 4)
      else if r = 1 then SkinnedMesh (Some 2) None [] [] [Some 3, Some 5]
      else if r = 2 then Group [3]
      else if r = 3 then Group [5]
      else if r = 4 then Background None
      else if r = 5 then Group []
      else Material)"

definition background_image_heap :: heap where
  "background_image_heap r = new_object
     (if r = 0 then World [] None (Some 1)
      else if r = 1 then Background (Some 2)
      else Image2D)"

section \<open>Identifier assignment: \<open>M3GExporter.start\<close>\<close>

text \<open>
  The \<open>id\<close> attribute of the objects is a second store, \<open>0\<close> for an object that has none
  yet (\<open>M3GProxy.__init__\<close>). The two loops of \<open>start\<close> share the counter \<open>i\<close>.
\<close>

type_synonym ids = "ref \<Rightarrow> nat"

definition assign_step :: "ref \<Rightarrow> nat \<times> ids \<Rightarrow> nat \<times> ids" where
  "assign_step element s = (case s of (i, m) \<Rightarrow> (i + 1, m(element := i + 1)))"

definition isExternalReference :: "heap \<Rightarrow> ref \<Rightarrow> bool" where
  "isExternalReference h r = (case kind (h r) of ExternalReference u \<Rightarrow> True | _ \<Rightarrow> False)"

definition assign_ids :: "heap \<Rightarrow> ref list \<Rightarrow> ids \<Rightarrow> ref list \<times> ref list \<times> ids" where
  "assign_ids h found m =
     (let externalReferences = filter (isExternalReference h) found;
          exportList = filter (\<lambda>element. \<not> isExternalReference h element) found;
          s1 = fold assign_step externalReferences (1, m);
          s2 = fold assign_step exportList s1
      in (externalReferences, exportList, snd s2))"

text \<open>\<open>getId\<close>: \<open>0\<close> for \<open>None\<close>.\<close>

definition getId :: "ids \<Rightarrow> ref option \<Rightarrow> nat" where
  "getId m aObject = (case aObject of None \<Rightarrow> 0 | Some r \<Rightarrow> m r)"

section \<open>Validation and the export entry point: \<open>M3GTranslator.start\<close>, \<open>M3GExporter.start\<close>\<close>

text \<open>
  What \<open>validate_all_nla_tracks\<close> reads of the host scene: for each object its name and
  its \<open>animation_data\<close> (possibly \<open>None\<close>) with the list of animation layers
  (\<open>nla_tracks\<close>), each muted or not.
\<close>

record nla_track =
  mute :: bool

record anim_data =
  nla_tracks :: "nla_track list"

record scene_object =
  name :: string
  animation_data :: "anim_data option"

fun validate_all_nla_tracks :: "scene_object list \<Rightarrow> m3g_error + unit" where
  "validate_all_nla_tracks [] = Inr ()"
| "validate_all_nla_tracks (obj # rest) =
     (case animation_data obj of
        None \<Rightarrow> validate_all_nla_tracks rest
      | Some ad \<Rightarrow>
          if nla_tracks ad = [] then validate_all_nla_tracks rest
          else
            (let active_tracks = filter (\<lambda>t. \<not> mute t) (nla_tracks ad)
             in if length active_tracks > 1
                then Inl (NLAError (name obj) (length active_tracks))
                else validate_all_nla_tracks rest))"

text \<open>
  Everything \<open>M3GTranslator.start\<close> does after the validation (limiting bone weights,
  translating the world and each object, parenting) reads and changes the host
  application and builds the object store; it is the parameter \<open>translate\<close>, a function
  of the scene objects and of the state \<open>'s\<close> of everything outside the exporter (the
  host scene, the file system) that returns the store with the world, or an error,
  and the new outside state. The writer's \<open>writeFile\<close> is the parameter \<open>writeFile\<close> in
  the same way.
\<close>

type_synonym 's translator = "scene_object list \<Rightarrow> 's \<Rightarrow> (m3g_error + heap \<times> ref) \<times> 's"

type_synonym 's writer =
  "heap \<Rightarrow> ids \<Rightarrow> ref \<Rightarrow> ref list \<Rightarrow> ref list \<Rightarrow> 's \<Rightarrow> (m3g_error + unit) \<times> 's"

definition M3GTranslator_start ::
  "'s translator \<Rightarrow> scene_object list \<Rightarrow> 's \<Rightarrow> (m3g_error + heap \<times> ref) \<times> 's" where
  "M3GTranslator_start translate objs s =
     (case validate_all_nla_tracks objs of
        Inl e \<Rightarrow> (Inl e, s)
      | Inr u \<Rightarrow> translate objs s)"

text \<open>
  \<open>M3GExporter.start\<close>: translate, collect, assign identifiers, write. \<open>depth\<close> is the
  bound on the nesting of the closure walk (a walk that is cut off is the
  \<open>RecursionError\<close> of the source), \<open>m\<close> the identifiers before the export.
\<close>

definition M3GExporter_start ::
  "nat \<Rightarrow> 's translator \<Rightarrow> 's writer \<Rightarrow> scene_object list \<Rightarrow> ids \<Rightarrow> 's
     \<Rightarrow> (m3g_error + ids) \<times> 's" where
  "M3GExporter_start depth translate writeFile objs m s =
     (case M3GTranslator_start translate objs s of
        (Inl e, s') \<Rightarrow> (Inl e, s')
      | (Inr (h, world), s') \<Rightarrow>
          (case createDeepSearchList depth h world of
             None \<Rightarrow> (Inl RecursionError, s')
           | Some found \<Rightarrow>
               (case assign_ids h found m of
                  (externalReferences, exportList, m') \<Rightarrow>
                    (case writeFile h m' world exportList externalReferences s' of
                       (Inl e, s'') \<Rightarrow> (Inl e, s'')
                     | (Inr u, s'') \<Rightarrow> (Inr m', s'')))))"







text \<open>The active (unmuted) animation layers of an object.\<close>

definition active_layers :: "scene_object \<Rightarrow> nla_track list" where
  "active_layers obj =
     (case animation_data obj of
        None \<Rightarrow> []
      | Some ad \<Rightarrow> filter (\<lambda>t. \<not> mute t) (nla_tracks ad))"

section \<open>The image cache: \<open>ImageFactory.getImage\<close>\<close>

text \<open>
  \<open>ImageFactory.images\<close> is a class attribute, created empty when the module is loaded
  and assigned nowhere else; it is part of the state that outlives a call, together
  with the objects it refers to. \<open>next_ref\<close> is the next unused reference of the store.
  The file name is \<open>bpy.path.abspath(image.filepath)\<close>. Constructing an
  \<open>M3GImage2D\<close> copies the pixels of the host image; only the kind of the new object is
  kept here.
\<close>

record factory_state =
  images :: "string \<rightharpoonup> ref"
  store :: heap
  next_ref :: ref

definition factory_init :: factory_state where
  "factory_init = \<lparr>images = Map.empty, store = (\<lambda>r. new_object Material), next_ref = 0\<rparr>"

text \<open>\<open>os.path.basename\<close> (POSIX): what follows the last slash.\<close>

definition basename :: "string \<Rightarrow> string" where
  "basename f = rev (takeWhile (\<lambda>c. c \<noteq> CHR ''/'') (rev f))"

definition create_image :: "m3g_kind \<Rightarrow> string \<Rightarrow> factory_state \<Rightarrow> ref \<times> factory_state" where
  "create_image k filename st =
     (next_ref st,
      st\<lparr>images := (images st)(filename \<mapsto> next_ref st),
         store := (store st)(next_ref st := new_object k),
         next_ref := next_ref st + 1\<rparr>)"

definition getImage :: "string \<Rightarrow> bool \<Rightarrow> factory_state \<Rightarrow> ref \<times> factory_state" where
  "getImage filename externalReference st =
     (case images st filename of
        Some image_ref \<Rightarrow> (image_ref, st)
      | None \<Rightarrow>
          if externalReference then create_image (ExternalReference (basename filename)) filename st
          else create_image Image2D filename st)"

text \<open>
  The \<open>getImage\<close> calls of one export: \<open>translateMaterials\<close> makes one per textured
  material, all with the \<open>textureExternal\<close> option of that export.
\<close>

fun export_images :: "bool \<Rightarrow> string list \<Rightarrow> factory_state \<Rightarrow> ref list \<times> factory_state" where
  "export_images externalReference [] st = ([], st)"
| "export_images externalReference (f # fs) st =
     (case getImage f externalReference st of
        (r, st') \<Rightarrow>
          (case export_images externalReference fs st' of
             (rs, st'') \<Rightarrow> (r # rs, st'')))"

text \<open>The kinds of the image objects an export got, as the store holds them afterwards.\<close>

definition image_kinds :: "ref list \<times> factory_state \<Rightarrow> m3g_kind list" where
  "image_kinds x = map (\<lambda>r. kind (store (snd x) r)) (fst x)"

section \<open>Vertex array quantization: \<open>M3GVertexArray.internalAutoScaling\<close>\<close>

text \<open>
  \<open>components\<close> is an \<open>array\<close> whose type code changes when the array is quantized:
  \<open>'f'\<close> (floats) before, \<open>'b'\<close> or \<open>'h'\<close> (signed bytes or shorts) after. Floating-point
  numbers are modelled as real numbers, that is, every arithmetic operation, and the
  storing of a result in the single-precision array, is taken as exact; the inputs used
  below as concrete cases are dyadic numbers on which the floating-point operations of
  the source are exact as well.
\<close>

datatype component_array =
    FloatArray "real list"
  | ByteArray "int list"
  | ShortArray "int list"

record M3GVertexArray =
  autoscaling :: bool
  uvmapping :: bool
  bias :: "real list"
  scale :: real
  componentSize :: nat
  componentCount :: nat
  components :: component_array

definition createComponentArray :: "nat \<Rightarrow> int list \<Rightarrow> component_array" where
  "createComponentArray aComponentSize xs =
     (if aComponentSize = 1 then ByteArray xs else ShortArray xs)"

definition M3GVertexArray_init :: "nat \<Rightarrow> nat \<Rightarrow> bool \<Rightarrow> bool \<Rightarrow> M3GVertexArray" where
  "M3GVertexArray_init aNumComponents aComponentSize aAutoScaling aUVMapping =
     \<lparr>autoscaling = aAutoScaling, uvmapping = aUVMapping, bias = [0, 0, 0], scale = 1,
      componentSize = aComponentSize, componentCount = aNumComponents,
      components = (if aAutoScaling then FloatArray []
                    else createComponentArray aComponentSize [])\<rparr>"

text \<open>Reading and writing a list element: \<open>IndexError\<close> outside the list.\<close>

definition get_item :: "'a list \<Rightarrow> nat \<Rightarrow> m3g_error + 'a" where
  "get_item xs i = (if i < length xs then Inr (xs ! i) else Inl IndexError)"

definition set_item :: "'a list \<Rightarrow> nat \<Rightarrow> 'a \<Rightarrow> m3g_error + 'a list" where
  "set_item xs i v = (if i < length xs then Inr (xs[i := v]) else Inl IndexError)"

text \<open>A \<open>for\<close> loop over a list of values whose body may raise.\<close>

fun for_each :: "'a list \<Rightarrow> ('a \<Rightarrow> 's \<Rightarrow> m3g_error + 's) \<Rightarrow> 's \<Rightarrow> m3g_error + 's" where
  "for_each [] body s = Inr s"
| "for_each (x # xs) body s =
     (case body x s of Inl e \<Rightarrow> Inl e | Inr s' \<Rightarrow> for_each xs body s')"

text \<open>\<open>range(0, n, step)\<close>: \<open>ValueError\<close> for a zero step.\<close>

definition range_step :: "nat \<Rightarrow> nat \<Rightarrow> m3g_error + nat list" where
  "range_step n step =
     (if step = 0 then Inl ValueError
      else Inr (map (\<lambda>k. k * step) [0 ..< (n + step - 1) div step]))"

text \<open>Python's \<open>int(x)\<close> on a float: truncation towards zero.\<close>

definition py_int :: "real \<Rightarrow> int" where
  "py_int x = (if 0 \<le> x then \<lfloor>x\<rfloor> else - \<lfloor>- x\<rfloor>)"

text \<open>Step 1: \<open>components[i+1] = 1.0 - components[i+1]\<close> for every vertex.\<close>

definition flip_body :: "nat \<Rightarrow> real list \<Rightarrow> m3g_error + real list" where
  "flip_body i c =
     (case get_item c (i + 1) of
        Inl e \<Rightarrow> Inl e
      | Inr v \<Rightarrow> set_item c (i + 1) (1 - v))"

text \<open>Step 2: the initial \<open>minimum\<close>/\<open>maximum\<close>, and the comparison of one component.\<close>

definition init_body :: "real list \<Rightarrow> nat \<Rightarrow> real list \<times> real list \<Rightarrow> m3g_error + real list \<times> real list" where
  "init_body c i s =
     (case get_item c i of
        Inl e \<Rightarrow> Inl e
      | Inr v \<Rightarrow> Inr (fst s @ [v], snd s @ [v]))"

definition minmax_body ::
  "real list \<Rightarrow> nat \<Rightarrow> nat \<Rightarrow> real list \<times> real list \<Rightarrow> m3g_error + real list \<times> real list" where
  "minmax_body c i j s =
     (case get_item (fst s) j of Inl e \<Rightarrow> Inl e | Inr mn \<Rightarrow>
      (case get_item c (i + j) of Inl e \<Rightarrow> Inl e | Inr v \<Rightarrow>
       (let minimum = (if mn > v then (fst s)[j := v] else fst s) in
        (case get_item (snd s) j of Inl e \<Rightarrow> Inl e | Inr mx \<Rightarrow>
         (let maximum = (if mx < v then (snd s)[j := v] else snd s) in
          Inr (minimum, maximum))))))"

text \<open>
  Step 3: \<open>lrange[i]\<close>, \<open>self.bias[i]\<close> and \<open>maxRange\<close>; the state is \<open>(bias, maxRange)\<close>.
\<close>

definition bias_body ::
  "real list \<Rightarrow> real list \<Rightarrow> nat \<Rightarrow> real list \<times> real \<Rightarrow> m3g_error + real list \<times> real" where
  "bias_body minimum maximum i s =
     (case get_item maximum i of Inl e \<Rightarrow> Inl e | Inr mx \<Rightarrow>
      (case get_item minimum i of Inl e \<Rightarrow> Inl e | Inr mn \<Rightarrow>
       (let lrange = mx - mn in
        (case set_item (fst s) i (mn * 0.5 + mx * 0.5) of Inl e \<Rightarrow> Inl e | Inr b \<Rightarrow>
           Inr (b, if lrange > snd s then lrange else snd s)))))"

text \<open>Step 5: one quantized, clamped component appended to the new array.\<close>

definition clamp_component :: "nat \<Rightarrow> int \<Rightarrow> int" where
  "clamp_component aComponentSize element =
     (if aComponentSize = 1 then max (- 127) (min 127 element)
      else max (- 32767) (min 32767 element))"

definition quantize_body ::
  "nat \<Rightarrow> real list \<Rightarrow> real \<Rightarrow> real list \<Rightarrow> nat \<Rightarrow> nat \<Rightarrow> int list \<Rightarrow> m3g_error + int list" where
  "quantize_body aComponentSize b sc oldArray i j q =
     (case get_item oldArray (i + j) of Inl e \<Rightarrow> Inl e | Inr v \<Rightarrow>
      (case get_item b j of Inl e \<Rightarrow> Inl e | Inr bj \<Rightarrow>
         Inr (q @ [clamp_component aComponentSize (py_int ((v - bj) / sc))])))"

text \<open>The five steps of \<open>internalAutoScaling\<close>, each with its loops.\<close>

definition flip_components :: "nat \<Rightarrow> real list \<Rightarrow> m3g_error + real list" where
  "flip_components cc c =
     (case range_step (length c) cc of
        Inl e \<Rightarrow> Inl e
      | Inr starts \<Rightarrow> for_each starts flip_body c)"

definition find_min_max :: "nat \<Rightarrow> real list \<Rightarrow> m3g_error + real list \<times> real list" where
  "find_min_max cc c =
     (case for_each [0 ..< cc] (init_body c) ([], []) of
        Inl e \<Rightarrow> Inl e
      | Inr mm0 \<Rightarrow>
          (case range_step (length c) cc of
             Inl e \<Rightarrow> Inl e
           | Inr starts \<Rightarrow> for_each starts (\<lambda>i. for_each [0 ..< cc] (minmax_body c i)) mm0))"

definition range_and_bias ::
  "nat \<Rightarrow> real list \<times> real list \<Rightarrow> real list \<Rightarrow> m3g_error + real list \<times> real" where
  "range_and_bias cc mm b = for_each [0 ..< cc] (bias_body (fst mm) (snd mm)) (b, 0)"

definition compute_scale :: "nat \<Rightarrow> real \<Rightarrow> real" where
  "compute_scale cs maxRange =
     (let maxValue = 2 ^ (8 * cs) - 2
      in if maxRange < 1 / 10 ^ 10 then 1 / maxValue else maxRange / maxValue)"

definition quantize :: "nat \<Rightarrow> nat \<Rightarrow> real list \<Rightarrow> real \<Rightarrow> real list \<Rightarrow> m3g_error + int list" where
  "quantize cs cc b sc oldArray =
     (case range_step (length oldArray) cc of
        Inl e \<Rightarrow> Inl e
      | Inr starts \<Rightarrow>
          for_each starts (\<lambda>i. for_each [0 ..< cc] (quantize_body cs b sc oldArray i)) [])"

text \<open>
  \<open>internalAutoScaling\<close>. It returns at once unless the array is autoscaled and still
  holds floats. An exception leaves the method in the middle of its updates; the
  model returns the exception only.
\<close>

definition internalAutoScaling :: "M3GVertexArray \<Rightarrow> m3g_error + M3GVertexArray" where
  "internalAutoScaling va =
     (case components va of
        ByteArray xs \<Rightarrow> Inr va
      | ShortArray xs \<Rightarrow> Inr va
      | FloatArray c0 \<Rightarrow>
          if \<not> autoscaling va then Inr va
          else
            (case (if uvmapping va then flip_components (componentCount va) c0 else Inr c0) of
               Inl e \<Rightarrow> Inl e
             | Inr c \<Rightarrow>
                 (case find_min_max (componentCount va) c of
                    Inl e \<Rightarrow> Inl e
                  | Inr mm \<Rightarrow>
                      (case range_and_bias (componentCount va) mm (bias va) of
                         Inl e \<Rightarrow> Inl e
                       | Inr br \<Rightarrow>
                           (let sc = compute_scale (componentSize va) (snd br) in
                            case quantize (componentSize va) (componentCount va) (fst br) sc c of
                              Inl e \<Rightarrow> Inl e
                            | Inr q \<Rightarrow>
                                Inr (va\<lparr>bias := fst br, scale := sc,
                                        components := createComponentArray (componentSize va) q\<rparr>))))))"

text \<open>
  The quantities of the claim. \<open>flip_v\<close> is the array after step 1 (for arrays of two or
  more components per vertex); \<open>column c cc j\<close> are the values of component \<open>j\<close> over
  all vertices.
\<close>

definition flip_v :: "nat \<Rightarrow> real list \<Rightarrow> real list" where
  "flip_v cc c = map (\<lambda>k. if k mod cc = 1 then 1 - c ! k else c ! k) [0 ..< length c]"

definition raw_values :: "M3GVertexArray \<Rightarrow> real list \<Rightarrow> real list" where
  "raw_values va c = (if uvmapping va then flip_v (componentCount va) c else c)"

definition column :: "real list \<Rightarrow> nat \<Rightarrow> nat \<Rightarrow> real list" where
  "column c cc j = map (\<lambda>i. c ! (i * cc + j)) [0 ..< length c div cc]"

definition midpoint :: "real list \<Rightarrow> nat \<Rightarrow> nat \<Rightarrow> real" where
  "midpoint c cc j = (Min (set (column c cc j)) + Max (set (column c cc j))) / 2"

definition max_range :: "real list \<Rightarrow> nat \<Rightarrow> real" where
  "max_range c cc =
     Max (set (0 # map (\<lambda>j. Max (set (column c cc j)) - Min (set (column c cc j))) [0 ..< cc]))"

definition max_value :: "nat \<Rightarrow> real" where
  "max_value aComponentSize = 2 ^ (8 * aComponentSize) - 2"

definition shared_scale :: "real list \<Rightarrow> nat \<Rightarrow> nat \<Rightarrow> real" where
  "shared_scale c cc aComponentSize =
     (if max_range c cc < 1 / 10 ^ 10 then 1 / max_value aComponentSize
      else max_range c cc / max_value aComponentSize)"

text \<open>
  A float array an autoscaled array can be quantized from without an exception: whole
  vertices, at least one, no more components per vertex than \<open>bias\<close> has entries, and
  at least two components per vertex when the second one is to be flipped.
\<close>

definition quantizable :: "M3GVertexArray \<Rightarrow> real list \<Rightarrow> bool" where
  "quantizable va c \<longleftrightarrow>
     autoscaling va \<and> components va = FloatArray c
     \<and> 0 < componentCount va \<and> componentCount va \<le> length (bias va)
     \<and> c \<noteq> [] \<and> length c mod componentCount va = 0
     \<and> (uvmapping va \<longrightarrow> 2 \<le> componentCount va)"


definition truncated_components :: "M3GVertexArray \<Rightarrow> real list \<Rightarrow> real list \<Rightarrow> real \<Rightarrow> int list" where
  "truncated_components va c b sc =
     map (\<lambda>k. clamp_component (componentSize va)
                 (py_int ((c ! k - b ! (k mod componentCount va)) / sc))) [0 ..< length c]"

text \<open>
  A texture-coordinate array as \<open>convertMesh\<close> builds it when autoscaling is on:
  \<open>M3GVertexArray(2, 2, True, True)\<close>, then \<open>u\<close> and \<open>v\<close> of each vertex appended. The three
  vertices are \<open>(0, 1)\<close>, \<open>(1 - 2\<^sup>-\<^sup>1\<^sup>5, 1/2)\<close> and \<open>(0, 3/4 - 3 / 2\<^sup>1\<^sup>8)\<close>, all of them
  single-precision floats.
\<close>

definition uv_floats :: "real list" where
  "uv_floats = [0, 1, 1 - 1 / 32768, 1 / 2, 0, 3 / 4 - 3 / 262144]"

definition uv_example :: M3GVertexArray where
  "uv_example = (M3GVertexArray_init 2 2 True True)\<lparr>components := FloatArray uv_floats\<rparr>"

section \<open>Lemmas on the framer\<close>

lemma length_le_bytes4: "length (le_bytes4 n) = 4"
  by (simp add: le_bytes4_def)

lemma read_u32_le_bytes4:
  assumes "0 \<le> n" "n < 4294967296"
  shows "read_u32 (le_bytes4 n) = n"
proof -
  have m: "\<And>k::int. uint (word_of_int k :: byte) = k mod 256"
    by (simp add: uint_word_of_int)
  have 1: "n div 65536 = n div 256 div 256" by (simp add: div_mult2_eq)
  have 2: "n div 16777216 = n div 256 div 256 div 256" by (simp add: div_mult2_eq)
  have 3: "n div 256 div 256 div 256 < 256" "0 \<le> n div 256 div 256 div 256"
    using assms by simp_all
  then have 4: "n div 256 div 256 div 256 mod 256 = n div 256 div 256 div 256" by simp
  have 5: "n mod 256 + 256 * (n div 256 mod 256) + 65536 * (n div 65536 mod 256)
        + 16777216 * (n div 16777216 mod 256) = n"
    unfolding 1 2 4
    using div_mult_mod_eq [of n 256] div_mult_mod_eq [of "n div 256" 256]
      div_mult_mod_eq [of "n div 256 div 256" 256]
    by linarith
  have "read_u32 (le_bytes4 n) = n mod 256 + 256 * (n div 256 mod 256) + 65536 * (n div 65536 mod 256)
        + 16777216 * (n div 16777216 mod 256)"
    unfolding read_u32_def le_bytes4_def by (simp only: list.case m)
  with 5 show ?thesis by (simp only:)
qed

lemma pack_I_Inr: "pack_I n = Inr bs \<Longrightarrow> bs = le_bytes4 n \<and> 0 \<le> n \<and> n < 4294967296"
  by (auto simp: pack_I_def split: if_splits)

lemma pack_B_Inr: "pack_B n = Inr bs \<Longrightarrow> bs = [word_of_int n] \<and> 0 \<le> n \<and> n < 256"
  by (auto simp: pack_B_def split: if_splits)

lemma pack_BII_Inr:
  "pack_BII c t u = Inr bs \<Longrightarrow>
     bs = word_of_int c # le_bytes4 t @ le_bytes4 u \<and>
     0 \<le> t \<and> t < 4294967296 \<and> 0 \<le> u \<and> u < 4294967296"
  by (auto simp: pack_BII_def split: sum.splits dest!: pack_I_Inr pack_B_Inr)

lemma collect_objects_Inr:
  "collect_objects objs acc = Inr bs \<Longrightarrow> bs = acc @ concat (map object_record objs)"
proof (induction objs arbitrary: acc)
  case Nil
  then show ?case by simp
next
  case (Cons element rest)
  from Cons.prems obtain objData where
    d: "M3GSectionObject_getData (M3GSectionObject_init element) = Inr objData" and
    r: "collect_objects rest (acc @ objData) = Inr bs"
    by (auto split: sum.splits)
  from d have "objData = object_record element"
    by (auto simp: M3GSectionObject_getData_def M3GSectionObject_init_def pack_BI_def
        object_record_def split: sum.splits dest!: pack_I_Inr pack_B_Inr)
  with Cons.IH [OF r] show ?case by simp
qed

lemma M3GSection_init_Inr:
  assumes "M3GSection_init objs = Inr sec"
  shows "Objects sec = concat (map object_record objs)"
    and "UncompressedLength sec = int (length (Objects sec))"
    and "TotalSectionLength sec = 13 + int (length (Objects sec))"
    and "CompressionScheme sec = 0"
  using assms collect_objects_Inr [of objs "[]"]
  by (auto simp: M3GSection_init_def split: sum.splits)

lemma M3GSection_getData_Inr:
  assumes "M3GSection_getData sec = Inr (bs, sec')"
  shows "bs = word_of_int (CompressionScheme sec) # le_bytes4 (TotalSectionLength sec)
              @ le_bytes4 (UncompressedLength sec) @ Objects sec
              @ le_bytes4 (ownAdler32 (word_of_int (CompressionScheme sec)
                    # le_bytes4 (TotalSectionLength sec)
                    @ le_bytes4 (UncompressedLength sec) @ Objects sec))"
    and "0 \<le> TotalSectionLength sec" and "TotalSectionLength sec < 4294967296"
    and "0 \<le> UncompressedLength sec" and "UncompressedLength sec < 4294967296"
  using assms
  by (auto simp: M3GSection_getData_def Let_def split: sum.splits
      dest!: pack_BII_Inr pack_I_Inr)

lemma adler_fold_range:
  "0 \<le> fst s \<Longrightarrow> fst s < 65521 \<Longrightarrow> 0 \<le> snd s \<Longrightarrow> snd s < 65521 \<Longrightarrow>
   0 \<le> fst (fold adler_step data s) \<and> fst (fold adler_step data s) < 65521 \<and>
   0 \<le> snd (fold adler_step data s) \<and> snd (fold adler_step data s) < 65521"
proof (induction data arbitrary: s)
  case Nil
  then show ?case by simp
next
  case (Cons b data)
  have "0 \<le> fst (adler_step b s)" "fst (adler_step b s) < 65521"
       "0 \<le> snd (adler_step b s)" "snd (adler_step b s) < 65521"
    by (simp_all add: adler_step_def Let_def)
  from Cons.IH [OF this] show ?case by simp
qed

lemma ownAdler32_range: "0 \<le> ownAdler32 data \<and> ownAdler32 data < 4294967296"
proof -
  let ?s = "fold adler_step data (1, 0)"
  have r: "0 \<le> fst ?s \<and> fst ?s < 65521 \<and> 0 \<le> snd ?s \<and> snd ?s < 65521"
    by (rule adler_fold_range) simp_all
  then show ?thesis
    by (simp add: ownAdler32_def Let_def push_bit_eq_mult)
qed

lemma adler32_spec_loop_fold:
  "adler32_spec_loop bs s1 s2 = fold adler_step bs (s1, s2)"
  by (induction bs arbitrary: s1 s2) (simp_all add: adler_step_def Let_def)

lemma shift_or_eq_add:
  assumes "0 \<le> a" "a < 65536"
  shows "push_bit 16 (b::int) OR a = push_bit 16 b + a"
proof -
  have "take_bit 16 a = a" using assms by (simp add: take_bit_int_eq_self)
  have "\<forall>n. bit (take_bit 16 a) n \<longrightarrow> n < 16"
    by (simp add: bit_take_bit_iff)
  with \<open>take_bit 16 a = a\<close> have hi: "\<forall>n. bit a n \<longrightarrow> n < 16"
    by simp
  have "push_bit 16 b AND a = 0"
  proof (rule bit_eqI)
    fix n
    show "bit (push_bit 16 b AND a) n = bit (0::int) n"
      using hi by (auto simp: bit_and_iff bit_push_bit_iff)
  qed
  then show ?thesis by (simp add: disjunctive_add_eq_or)
qed

lemma ownAdler32_eq_spec: "ownAdler32 data = adler32_spec data"
proof -
  let ?s = "fold adler_step data (1, 0)"
  have r: "0 \<le> fst ?s \<and> fst ?s < 65521 \<and> 0 \<le> snd ?s \<and> snd ?s < 65521"
    by (rule adler_fold_range) simp_all
  then have "push_bit 16 (snd ?s) OR fst ?s = push_bit 16 (snd ?s) + fst ?s"
    by (intro shift_or_eq_add) simp_all
  then show ?thesis
    by (simp add: ownAdler32_def adler32_spec_def adler32_spec_loop_fold Let_def case_prod_unfold)
qed


lemma M3GSection_getData_total:
  assumes "M3GSection_init objs = Inr sec"
    and "int (length (Objects sec)) + 13 < 4294967296"
  shows "\<exists>bs sec'. M3GSection_getData sec = Inr (bs, sec')"
proof -
  note i = M3GSection_init_Inr [OF assms(1)]
  have "pack_BII (CompressionScheme sec) (TotalSectionLength sec) (UncompressedLength sec)
        = Inr (word_of_int 0 # le_bytes4 (TotalSectionLength sec) @ le_bytes4 (UncompressedLength sec))"
    using i assms(2) by (simp add: pack_BII_def pack_B_def pack_I_def)
  moreover have "\<And>d. pack_I (ownAdler32 d) = Inr (le_bytes4 (ownAdler32 d))"
    using ownAdler32_range by (simp add: pack_I_def)
  ultimately show ?thesis
    by (simp add: M3GSection_getData_def Let_def)
qed

subsection \<open>Section length fields\<close>

text \<open>
  Claim C1. For a section built by \<open>M3GSection.__init__\<close> and emitted by
  \<open>M3GSection.getData\<close>, the 4-byte field at offset 5 (\<open>uncompressedLen\<close>) reads back
  as the exact byte length of the concatenated object records, which are the bytes
  from offset 9 on; the 4-byte field at offset 1 (\<open>totalLen\<close>) reads back as
  \<open>13 + uncompressedLen\<close>, which is also the length of the whole emitted section.
\<close>

theorem section_length_fields:
  assumes "M3GSection_init objs = Inr sec"
    and "M3GSection_getData sec = Inr (bs, sec')"
  shows "read_u32 (take 4 (drop 5 bs)) = int (length (concat (map object_record objs)))
       \<and> read_u32 (take 4 (drop 1 bs)) = 13 + read_u32 (take 4 (drop 5 bs))
       \<and> take (nat (read_u32 (take 4 (drop 5 bs)))) (drop 9 bs) = concat (map object_record objs)
       \<and> int (length bs) = read_u32 (take 4 (drop 1 bs))"
proof -
  let ?P = "concat (map object_record objs)"
  note i = M3GSection_init_Inr [OF assms(1)]
  note g = M3GSection_getData_Inr [OF assms(2)]
  let ?u = "int (length ?P)"
  have u: "UncompressedLength sec = ?u" and t: "TotalSectionLength sec = 13 + ?u"
    using i by simp_all
  obtain ck where bs: "bs = word_of_int 0 # le_bytes4 (13 + ?u) @ le_bytes4 ?u @ ?P @ le_bytes4 ck"
    using g(1) i u t by simp
  have ru: "read_u32 (le_bytes4 ?u) = ?u"
    using g(4,5) u by (intro read_u32_le_bytes4) simp_all
  have rt: "read_u32 (le_bytes4 (13 + ?u)) = 13 + ?u"
    using g(2,3) t by (intro read_u32_le_bytes4) simp_all
  have a: "take 4 (drop 5 bs) = le_bytes4 ?u"
    unfolding bs by (simp add: length_le_bytes4)
  have b: "take 4 (drop 1 bs) = le_bytes4 (13 + ?u)"
    unfolding bs by (simp add: length_le_bytes4)
  have c: "drop 9 bs = ?P @ le_bytes4 ck"
    unfolding bs by (simp add: length_le_bytes4)
  have d: "length bs = 13 + length ?P"
    unfolding bs by (simp add: length_le_bytes4)
  show ?thesis
    unfolding a b c ru rt using d by simp
qed

theorem section_length_fields_witness:
  "M3GSection_init [\<lparr>ObjectType = 14, getData = [1, 2, 3]\<rparr>] =
     Inr \<lparr>CompressionScheme = 0, TotalSectionLength = 21, UncompressedLength = 8,
          Objects = [14, 3, 0, 0, 0, 1, 2, 3], Checksum = 0\<rparr>
   \<and> M3GSection_getData \<lparr>CompressionScheme = 0, TotalSectionLength = 21, UncompressedLength = 8,
          Objects = [14, 3, 0, 0, 0, 1, 2, 3], Checksum = 0\<rparr> =
     Inr ([0, 21, 0, 0, 0, 8, 0, 0, 0, 14, 3, 0, 0, 0, 1, 2, 3, 53, 0, 80, 2],
          \<lparr>CompressionScheme = 0, TotalSectionLength = 21, UncompressedLength = 8,
          Objects = [14, 3, 0, 0, 0, 1, 2, 3], Checksum = 38797365\<rparr>)
   \<and> read_u32 [8, 0, 0, 0] = int (length (concat (map object_record [\<lparr>ObjectType = 14, getData = [1, 2, 3]\<rparr>])))
   \<and> read_u32 [21, 0, 0, 0] = 13 + read_u32 [8, 0, 0, 0]"
proof -
  let ?objs = "[\<lparr>ObjectType = 14, getData = [1, 2, 3 :: byte]\<rparr>]"
  let ?sec = "\<lparr>CompressionScheme = 0, TotalSectionLength = 21, UncompressedLength = 8,
          Objects = [14, 3, 0, 0, 0, 1, 2, 3 :: byte], Checksum = 0\<rparr>"
  let ?bs = "[0, 21, 0, 0, 0, 8, 0, 0, 0, 14, 3, 0, 0, 0, 1, 2, 3, 53, 0, 80, 2 :: byte]"
  have a: "M3GSection_init ?objs = Inr ?sec"
    by (simp add: M3GSection_init_def M3GSectionObject_getData_def M3GSectionObject_init_def
        pack_BI_def pack_B_def pack_I_def le_bytes4_def)
  have b: "M3GSection_getData ?sec = Inr (?bs, ?sec\<lparr>Checksum := 38797365\<rparr>)"
    by (simp add: M3GSection_getData_def pack_BII_def pack_B_def pack_I_def le_bytes4_def
        ownAdler32_def adler_step_def Let_def)
  from section_length_fields [OF a b] a b show ?thesis
    by simp
qed

subsection \<open>Section checksum\<close>

text \<open>
  Claim C2. The trailing 4 bytes of an emitted section read back as the Adler-32
  checksum of all preceding bytes of the section (compression-scheme byte, both
  length fields, object records), where the checksum is the one of the
  specification: accumulators \<open>s1\<close> from 1 and \<open>s2\<close> from 0, each reduced modulo 65521
  per byte, combined as \<open>(s2 << 16) | s1\<close>. The code's \<open>ownAdler32\<close>, which combines
  with \<open>+\<close>, computes the same value.
\<close>

theorem section_checksum:
  assumes "M3GSection_init objs = Inr sec"
    and "M3GSection_getData sec = Inr (bs, sec')"
  shows "read_u32 (drop (length bs - 4) bs) = adler32_spec (take (length bs - 4) bs)
       \<and> adler32_spec (take (length bs - 4) bs) = ownAdler32 (take (length bs - 4) bs)
       \<and> take (length bs - 4) bs =
           word_of_int (CompressionScheme sec) # le_bytes4 (TotalSectionLength sec)
             @ le_bytes4 (UncompressedLength sec) @ concat (map object_record objs)
       \<and> Checksum sec' = ownAdler32 (take (length bs - 4) bs)"
proof -
  let ?pre = "word_of_int (CompressionScheme sec) # le_bytes4 (TotalSectionLength sec)
             @ le_bytes4 (UncompressedLength sec) @ Objects sec"
  note i = M3GSection_init_Inr [OF assms(1)]
  note g = M3GSection_getData_Inr [OF assms(2)]
  have bs: "bs = ?pre @ le_bytes4 (ownAdler32 ?pre)"
    using g(1) by simp
  have l: "length bs - 4 = length ?pre"
    unfolding bs by (simp add: length_le_bytes4)
  have a: "take (length bs - 4) bs = ?pre"
    unfolding l by (subst bs) simp
  have b: "drop (length bs - 4) bs = le_bytes4 (ownAdler32 ?pre)"
    unfolding l by (subst bs) simp
  have r: "read_u32 (le_bytes4 (ownAdler32 ?pre)) = ownAdler32 ?pre"
    using ownAdler32_range [of ?pre] by (intro read_u32_le_bytes4) simp_all
  have c: "Checksum sec' = ownAdler32 ?pre"
    using assms(2)
    by (auto simp: M3GSection_getData_def Let_def split: sum.splits dest!: pack_BII_Inr)
  show ?thesis
    unfolding a b r c using i(1) by (simp add: ownAdler32_eq_spec)
qed

theorem section_checksum_witness:
  "M3GSection_init [\<lparr>ObjectType = 14, getData = [1, 2, 3]\<rparr>] =
     Inr \<lparr>CompressionScheme = 0, TotalSectionLength = 21, UncompressedLength = 8,
          Objects = [14, 3, 0, 0, 0, 1, 2, 3], Checksum = 0\<rparr>
   \<and> M3GSection_getData \<lparr>CompressionScheme = 0, TotalSectionLength = 21, UncompressedLength = 8,
          Objects = [14, 3, 0, 0, 0, 1, 2, 3], Checksum = 0\<rparr> =
     Inr ([0, 21, 0, 0, 0, 8, 0, 0, 0, 14, 3, 0, 0, 0, 1, 2, 3, 53, 0, 80, 2],
          \<lparr>CompressionScheme = 0, TotalSectionLength = 21, UncompressedLength = 8,
          Objects = [14, 3, 0, 0, 0, 1, 2, 3], Checksum = 38797365\<rparr>)
   \<and> read_u32 [53, 0, 80, 2] =
       adler32_spec [0, 21, 0, 0, 0, 8, 0, 0, 0, 14, 3, 0, 0, 0, 1, 2, 3]
   \<and> ownAdler32 [0, 21, 0, 0, 0, 8, 0, 0, 0, 14, 3, 0, 0, 0, 1, 2, 3] = 38797365"
proof -
  let ?objs = "[\<lparr>ObjectType = 14, getData = [1, 2, 3 :: byte]\<rparr>]"
  let ?sec = "\<lparr>CompressionScheme = 0, TotalSectionLength = 21, UncompressedLength = 8,
          Objects = [14, 3, 0, 0, 0, 1, 2, 3 :: byte], Checksum = 0\<rparr>"
  let ?bs = "[0, 21, 0, 0, 0, 8, 0, 0, 0, 14, 3, 0, 0, 0, 1, 2, 3, 53, 0, 80, 2 :: byte]"
  have a: "M3GSection_init ?objs = Inr ?sec"
    by (simp add: M3GSection_init_def M3GSectionObject_getData_def M3GSectionObject_init_def
        pack_BI_def pack_B_def pack_I_def le_bytes4_def)
  have b: "M3GSection_getData ?sec = Inr (?bs, ?sec\<lparr>Checksum := 38797365\<rparr>)"
    by (simp add: M3GSection_getData_def pack_BII_def pack_B_def pack_I_def le_bytes4_def
        ownAdler32_def adler_step_def Let_def)
  from section_checksum [OF a b] a b show ?thesis
    by (simp add: le_bytes4_def object_record_def)
qed

section \<open>Properties of face triangulation\<close>

lemma resolve_face_length:
  "resolve_face resolve f k vs st = (ind, st') \<Longrightarrow> length ind = length vs"
proof (induction vs arbitrary: k st ind st')
  case Nil
  then show ?case by simp
next
  case (Cons v vs)
  obtain i st1 where r: "resolve st f k v = (i, st1)"
    by (cases "resolve st f k v")
  obtain js st2 where rr: "resolve_face resolve f (Suc k) vs st1 = (js, st2)"
    by (cases "resolve_face resolve f (Suc k) vs st1")
  from Cons.prems r rr have "ind = i # js" by simp
  with Cons.IH [OF rr] show ?case by simp
qed

lemma length_resolve_face:
  "length (fst (resolve_face resolve f k vs st)) = length vs"
  by (cases "resolve_face resolve f k vs st") (simp add: resolve_face_length)

lemma fold_add_strip:
  "stripLengths (fold (\<lambda>i. add_strip n (g i)) xs ts) = stripLengths ts @ replicate (length xs) n
   \<and> indices (fold (\<lambda>i. add_strip n (g i)) xs ts) = indices ts @ concat (map g xs)"
proof (induction xs arbitrary: ts)
  case Nil
  then show ?case by simp
next
  case (Cons x xs)
  have "stripLengths (add_strip n (g x) ts) = stripLengths ts @ [n]"
    and "indices (add_strip n (g x) ts) = indices ts @ g x"
    by (simp_all add: add_strip_def)
  with Cons.IH [of "add_strip n (g x) ts"] show ?case
    by (simp add: replicate_app_Cons_same)
qed

lemma translate_face_strips:
  assumes "translate_face resolve f (st, ts) = (st', ts')"
    and "ind = fst (resolve_face resolve f 0 (vertices f) st)"
    and "n = length (vertices f)"
  shows "length ind = n
     \<and> (n = 3 \<longrightarrow> stripLengths ts' = stripLengths ts @ [3]
                \<and> indices ts' = indices ts @ [ind ! 0, ind ! 1, ind ! 2])
     \<and> (n = 4 \<longrightarrow> stripLengths ts' = stripLengths ts @ [4]
                \<and> indices ts' = indices ts @ [ind ! 1, ind ! 2, ind ! 0, ind ! 3])
     \<and> (5 \<le> n \<longrightarrow> stripLengths ts' = stripLengths ts @ replicate (n - 2) 3
                \<and> indices ts' = indices ts
                     @ concat (map (\<lambda>i. [ind ! 0, ind ! i, ind ! (i + 1)]) [1 ..< n - 1]))"
proof -
  have len: "length ind = n"
    using assms(2,3) by (simp add: length_resolve_face)
  have ts': "ts' = emit_face ind ts"
    using assms(1,2) by (auto simp: translate_face_def split: prod.splits)
  have three: "n = 3 \<Longrightarrow> stripLengths ts' = stripLengths ts @ [3]
                \<and> indices ts' = indices ts @ [ind ! 0, ind ! 1, ind ! 2]"
    using len by (simp add: ts' emit_face_def add_strip_def)
  have four: "n = 4 \<Longrightarrow> stripLengths ts' = stripLengths ts @ [4]
                \<and> indices ts' = indices ts @ [ind ! 1, ind ! 2, ind ! 0, ind ! 3]"
    using len by (simp add: ts' emit_face_def add_strip_def)
  have many: "stripLengths ts' = stripLengths ts @ replicate (n - 2) 3
                \<and> indices ts' = indices ts
                     @ concat (map (\<lambda>i. [ind ! 0, ind ! i, ind ! (i + 1)]) [1 ..< n - 1])"
    if "5 \<le> n"
  proof -
    from that len have e: "emit_face ind ts =
        fold (\<lambda>i. add_strip 3 [ind ! 0, ind ! i, ind ! (i + 1)]) [1 ..< n - 1] ts"
      by (simp add: emit_face_def)
    have "length [1 ..< n - 1] = n - 2" by simp
    with fold_add_strip [of 3 "\<lambda>i. [ind ! 0, ind ! i, ind ! (i + 1)]" "[1 ..< n - 1]" ts]
    show ?thesis unfolding ts' e by simp
  qed
  from len three four many show ?thesis by blast
qed

section \<open>Properties of the bone runs\<close>

lemma flush_run_upto:
  "a \<le> l \<Longrightarrow> flush_run ref [a..l] = ref @ [\<lparr>firstVertex = a, vertexCount = nat (l - a + 1)\<rparr>]"
  by (simp add: flush_run_def upto_rec1 [of a l])

lemma maximal_run_interval:
  assumes "a \<le> l"
  shows "maximal_run {a..l} s n \<longleftrightarrow> s = a \<and> n = nat (l - a + 1)"
proof
  assume m: "maximal_run {a..l} s n"
  then have n: "0 < n" and sub: "\<forall>k\<in>{s ..< s + int n}. k \<in> {a..l}"
    and lo: "s - 1 \<notin> {a..l}" and hi: "s + int n \<notin> {a..l}"
    by (simp_all add: maximal_run_def)
  from n have "s \<in> {s ..< s + int n}" and "s + int n - 1 \<in> {s ..< s + int n}"
    by simp_all
  with sub have "s \<in> {a..l}" and "s + int n - 1 \<in> {a..l}"
    by blast+
  then show "s = a \<and> n = nat (l - a + 1)"
    using lo hi by auto
next
  assume "s = a \<and> n = nat (l - a + 1)"
  with assms show "maximal_run {a..l} s n"
    by (auto simp: maximal_run_def)
qed

lemma maximal_run_union:
  assumes al: "a \<le> l" and B: "\<forall>b\<in>B. l + 1 < b"
  shows "maximal_run ({a..l} \<union> B) s n \<longleftrightarrow> maximal_run {a..l} s n \<or> maximal_run B s n"
proof
  assume m: "maximal_run ({a..l} \<union> B) s n"
  then have n: "0 < n" and sub: "\<forall>k\<in>{s ..< s + int n}. k \<in> {a..l} \<union> B"
    and lo: "s - 1 \<notin> {a..l} \<union> B" and hi: "s + int n \<notin> {a..l} \<union> B"
    by (simp_all add: maximal_run_def)
  have gap: "l + 1 \<notin> {a..l} \<union> B"
    using B by auto
  show "maximal_run {a..l} s n \<or> maximal_run B s n"
  proof (cases "s \<le> l")
    case True
    have top: "s + int n \<le> l + 1"
    proof (rule ccontr)
      assume "\<not> s + int n \<le> l + 1"
      with True have "l + 1 \<in> {s ..< s + int n}" by simp
      with sub gap show False by blast
    qed
    have "\<forall>k\<in>{s ..< s + int n}. k \<in> {a..l}"
    proof
      fix k assume k: "k \<in> {s ..< s + int n}"
      with sub have "k \<in> {a..l} \<union> B" by blast
      moreover from k top have "k \<le> l" by simp
      ultimately show "k \<in> {a..l}" using B by auto
    qed
    with n lo hi have "maximal_run {a..l} s n"
      by (simp add: maximal_run_def)
    then show ?thesis ..
  next
    case False
    have "\<forall>k\<in>{s ..< s + int n}. k \<in> B"
    proof
      fix k assume k: "k \<in> {s ..< s + int n}"
      with sub have "k \<in> {a..l} \<union> B" by blast
      moreover from k False have "l < k" by simp
      ultimately show "k \<in> B" by auto
    qed
    with n lo hi have "maximal_run B s n"
      by (simp add: maximal_run_def)
    then show ?thesis ..
  qed
next
  assume "maximal_run {a..l} s n \<or> maximal_run B s n"
  then show "maximal_run ({a..l} \<union> B) s n"
  proof
    assume "maximal_run {a..l} s n"
    with al have s: "s = a" and nn: "n = nat (l - a + 1)"
      by (simp_all add: maximal_run_interval)
    from al nn have e: "s + int n = l + 1" by (simp add: s)
    have "s - 1 \<notin> B" using B al s by auto
    moreover have "s + int n \<notin> B" using B e by auto
    ultimately show ?thesis
      using \<open>maximal_run {a..l} s n\<close> by (auto simp: maximal_run_def)
  next
    assume m: "maximal_run B s n"
    then have "0 < n" and sub: "\<forall>k\<in>{s ..< s + int n}. k \<in> B"
      by (simp_all add: maximal_run_def)
    then have "s \<in> B" by simp
    with B have "l + 1 < s" by blast
    then have "s - 1 \<notin> {a..l}" and "s + int n \<notin> {a..l}" by simp_all
    with m show ?thesis
      by (auto simp: maximal_run_def)
  qed
qed


lemma fold_run_step:
  assumes "a \<le> l" and "sorted xs" and "distinct xs" and "\<forall>x\<in>set xs. l < x"
  shows "\<exists>R. finish_runs (fold run_step xs (ref, [a..l], l)) = ref @ R
           \<and> set (map run_pair R) = {(s, n). maximal_run ({a..l} \<union> set xs) s n}
           \<and> sorted_wrt (<) (map firstVertex R)
           \<and> (\<forall>r\<in>set R. a \<le> firstVertex r)"
  using assms
proof (induction xs arbitrary: ref a l)
  case Nil
  let ?r = "\<lparr>firstVertex = a, vertexCount = nat (l - a + 1)\<rparr>"
  have "finish_runs (fold run_step [] (ref, [a..l], l)) = ref @ [?r]"
    using Nil.prems(1) by (simp add: finish_runs_def flush_run_upto)
  moreover have "set (map run_pair [?r]) = {(s, n). maximal_run ({a..l} \<union> set []) s n}"
    using Nil.prems(1) by (auto simp: run_pair_def maximal_run_interval)
  ultimately show ?case
    by (intro exI [of _ "[?r]"]) simp
next
  case (Cons x xs)
  from Cons.prems have lx: "l < x" and sx: "sorted xs" and dx: "distinct xs"
    and gx: "\<forall>y\<in>set xs. x < y"
    by (auto simp: order_less_le)
  show ?case
  proof (cases "x = l + 1")
    case True
    have st: "run_step x (ref, [a..l], l) = (ref, [a..x], x)"
      using True Cons.prems(1) by (simp add: run_step_def upto_rec2 [of a "l + 1"])
    from Cons.prems(1) True have ax: "a \<le> x" by simp
    from Cons.IH [of a x ref, OF ax sx dx gx] obtain R where
      R: "finish_runs (fold run_step xs (ref, [a..x], x)) = ref @ R"
         "set (map run_pair R) = {(s, n). maximal_run ({a..x} \<union> set xs) s n}"
         "sorted_wrt (<) (map firstVertex R)" "\<forall>r\<in>set R. a \<le> firstVertex r"
      by blast
    have "{a..x} \<union> set xs = {a..l} \<union> set (x # xs)"
      using True Cons.prems(1) by auto
    with R st show ?thesis
      by (intro exI [of _ R]) simp
  next
    case False
    with lx have far: "l + 1 < x" by simp
    let ?r = "\<lparr>firstVertex = a, vertexCount = nat (l - a + 1)\<rparr>"
    have st: "run_step x (ref, [a..l], l) = (ref @ [?r], [x..x], x)"
      using False Cons.prems(1) by (simp add: run_step_def flush_run_upto)
    from Cons.IH [of x x "ref @ [?r]", OF order_refl sx dx gx] obtain R where
      R: "finish_runs (fold run_step xs (ref @ [?r], [x..x], x)) = (ref @ [?r]) @ R"
         "set (map run_pair R) = {(s, n). maximal_run ({x..x} \<union> set xs) s n}"
         "sorted_wrt (<) (map firstVertex R)" "\<forall>r\<in>set R. x \<le> firstVertex r"
      by blast
    have B: "\<forall>b\<in>{x..x} \<union> set xs. l + 1 < b"
      using far gx by auto
    have S: "{a..l} \<union> set (x # xs) = {a..l} \<union> ({x..x} \<union> set xs)"
      by auto
    have "{(s, n). maximal_run ({a..l} \<union> set (x # xs)) s n}
          = {(s, n). maximal_run {a..l} s n} \<union> {(s, n). maximal_run ({x..x} \<union> set xs) s n}"
      unfolding S using maximal_run_union [OF Cons.prems(1) B] by auto
    also have "{(s, n). maximal_run {a..l} s n} = {run_pair ?r}"
      using Cons.prems(1) by (auto simp: run_pair_def maximal_run_interval)
    finally have sets: "set (map run_pair (?r # R)) = {(s, n). maximal_run ({a..l} \<union> set (x # xs)) s n}"
      using R(2) by simp
    have srt: "sorted_wrt (<) (map firstVertex (?r # R))"
      using R(3,4) far Cons.prems(1) by auto
    have low: "\<forall>r\<in>set (?r # R). a \<le> firstVertex r"
      using R(4) far Cons.prems(1) by auto
    have "finish_runs (fold run_step (x # xs) (ref, [a..l], l)) = ref @ (?r # R)"
      using st R(1) by simp
    with sets srt low show ?thesis
      by (intro exI [of _ "?r # R"]) blast
  qed
qed

lemma setVerts_sorts: "verts (setVerts vs M3GBone_init) = sort vs"
proof (cases "sort vs")
  case Nil
  then have "vs = []"
    by (metis length_0_conv length_sort)
  then show ?thesis
    by (simp add: setVerts_def createReferences_def M3GBone_init_def)
next
  case (Cons v0 rest)
  then show ?thesis
    by (simp add: setVerts_def createReferences_def M3GBone_init_def)
qed

lemma createReferences_runs:
  assumes "distinct vs"
  shows "set (map run_pair (references (setVerts vs M3GBone_init))) =
           {(s, n). maximal_run (set vs) s n}
       \<and> sorted_wrt (<) (map firstVertex (references (setVerts vs M3GBone_init)))"
proof (cases "sort vs")
  case Nil
  then have "vs = []"
    by (metis length_0_conv length_sort)
  have "\<not> maximal_run {} s n" for s n
  proof
    assume "maximal_run {} s n"
    then have "0 < n" and "\<forall>k\<in>{s ..< s + int n}. k \<in> {}"
      by (simp_all add: maximal_run_def)
    moreover from \<open>0 < n\<close> have "s \<in> {s ..< s + int n}" by simp
    ultimately show False by blast
  qed
  with \<open>vs = []\<close> show ?thesis
    by (simp add: setVerts_def createReferences_def M3GBone_init_def)
next
  case (Cons v0 rest)
  have srt: "sorted (v0 # rest)" and dst: "distinct (v0 # rest)" and st: "set (v0 # rest) = set vs"
    using assms Cons [symmetric] by simp_all
  then have "sorted rest" "distinct rest" "\<forall>x\<in>set rest. v0 < x"
    by (auto simp: order_less_le)
  from fold_run_step [OF order_refl this, of "[]"] obtain R where
    R: "finish_runs (fold run_step rest ([], [v0..v0], v0)) = R"
       "set (map run_pair R) = {(s, n). maximal_run ({v0..v0} \<union> set rest) s n}"
       "sorted_wrt (<) (map firstVertex R)"
    by auto
  have "run_step v0 ([], [], v0 - 1) = ([], [v0..v0], v0)"
    by (simp add: run_step_def)
  then have "references (setVerts vs M3GBone_init) = R"
    using R(1) Cons by (simp add: setVerts_def createReferences_def M3GBone_init_def)
  moreover have "{v0..v0} \<union> set rest = set vs"
    using st by auto
  ultimately show ?thesis
    using R(2,3) by simp
qed

text \<open>
  Claim C8. For a bone whose weighted vertex indices are given as a list without
  repetition (in any order), \<open>setVerts\<close> leaves in \<open>references\<close> exactly the pairs
  (firstVertex, vertexCount) of the maximal contiguous ranges of the index set, each
  once and in increasing order of firstVertex; the set \<open>{2, 3, 4, 9, 10}\<close> gives
  exactly the two runs (2, 3) and (9, 2).
\<close>

theorem bone_runs:
  assumes "distinct vs"
  shows "verts (setVerts vs M3GBone_init) = sort vs
       \<and> set (map run_pair (references (setVerts vs M3GBone_init))) =
           {(s, n). maximal_run (set vs) s n}
       \<and> sorted_wrt (<) (map firstVertex (references (setVerts vs M3GBone_init)))
       \<and> (set vs = {2, 3, 4, 9, 10} \<longrightarrow>
            map run_pair (references (setVerts vs M3GBone_init)) = [(2, 3), (9, 2)])"
proof -
  have "map run_pair (references (setVerts vs M3GBone_init)) = [(2, 3), (9, 2)]"
    if s: "set vs = {2, 3, 4, 9, 10}"
  proof -
    have "sorted (sort vs)" "distinct (sort vs)" "set (sort vs) = set [2, 3, 4, 9, 10]"
      using assms s by simp_all
    moreover have "sorted [2, 3, 4, 9, 10 :: int]" "distinct [2, 3, 4, 9, 10 :: int]"
      by simp_all
    ultimately have "sort vs = [2, 3, 4, 9, 10]"
      by (intro sorted_distinct_set_unique) simp_all
    then show ?thesis
      by (simp add: setVerts_def createReferences_def M3GBone_init_def finish_runs_def
          run_step_def flush_run_def run_pair_def)
  qed
  with createReferences_runs [OF assms] setVerts_sorts [of vs] show ?thesis by blast
qed

theorem bone_runs_witness:
  "distinct [10, 2, 9, 4, 3 :: int]
   \<and> map run_pair (references (setVerts [10, 2, 9, 4, 3] M3GBone_init)) = [(2, 3), (9, 2)]
   \<and> maximal_run (set [10, 2, 9, 4, 3]) 9 2"
proof -
  have d: "distinct [10, 2, 9, 4, 3 :: int]" by simp
  have s: "set [10, 2, 9, 4, 3 :: int] = {2, 3, 4, 9, 10}" by auto
  from bone_runs [OF d] s
  have m: "map run_pair (references (setVerts [10, 2, 9, 4, 3] M3GBone_init)) = [(2, 3), (9, 2)]"
    and e: "set (map run_pair (references (setVerts [10, 2, 9, 4, 3] M3GBone_init))) =
           {(s, n). maximal_run (set [10, 2, 9, 4, 3]) s n}"
    by blast+
  from e have "maximal_run (set [10, 2, 9, 4, 3]) 9 2"
    unfolding m by auto
  with d m show ?thesis by blast
qed

section \<open>Properties of the closure walk\<close>

lemma deps_first_snoc:
  assumes "deps_first h refs L" and "\<forall>s. Some s \<in> set (refs (h r)) \<longrightarrow> s \<in> set L"
  shows "deps_first h refs (L @ [r])"
  unfolding deps_first_def
proof (intro allI impI)
  fix i s
  assume i: "i < length (L @ [r])" and s: "Some s \<in> set (refs (h ((L @ [r]) ! i)))"
  show "\<exists>j<i. (L @ [r]) ! j = s"
  proof (cases "i < length L")
    case True
    with s have "Some s \<in> set (refs (h (L ! i)))" by (simp add: nth_append)
    with assms(1) True obtain j where j: "j < i" "L ! j = s"
      unfolding deps_first_def by blast
    with True have "(L @ [r]) ! j = s" by (simp add: nth_append)
    with j(1) show ?thesis by blast
  next
    case False
    with i have e: "i = length L" by simp
    with s have "Some s \<in> set (refs (h r))" by simp
    with assms(2) have "s \<in> set L" by blast
    then obtain j where j: "j < length L" "L ! j = s"
      unfolding in_set_conv_nth by blast
    then have "(L @ [r]) ! j = s" by (simp add: nth_append)
    with j(1) e show ?thesis by blast
  qed
qed

lemma walk_invariant:
  "searchDeep n h r alist = Some l \<Longrightarrow>
     (\<exists>ys. l = alist @ ys) \<and> r \<in> set l
     \<and> set l \<subseteq> set alist \<union> {x. (x, r) \<in> (edges h)\<^sup>*}
     \<and> (distinct alist \<and> deps_first h searched alist \<longrightarrow> distinct l \<and> deps_first h searched l)"
  "doSearchDeep n h es alist = Some l \<Longrightarrow>
     (\<exists>ys. l = alist @ ys) \<and> (\<forall>s. Some s \<in> set es \<longrightarrow> s \<in> set l)
     \<and> set l \<subseteq> set alist \<union> {x. \<exists>s. Some s \<in> set es \<and> (x, s) \<in> (edges h)\<^sup>*}
     \<and> (distinct alist \<and> deps_first h searched alist \<longrightarrow> distinct l \<and> deps_first h searched l)"
proof (induction n h r alist and n h es alist arbitrary: l and l rule: searchDeep_doSearchDeep.induct)
  case (1 h r alist)
  then show ?case by simp
next
  case (2 n h r alist)
  from "2.prems" obtain l0 where
    d: "doSearchDeep n h (searched (h r)) alist = Some l0" and
    l: "l = (if r \<in> set l0 then l0 else l0 @ [r])"
    by (auto split: option.splits)
  note ih = "2.IH" [OF d]
  note ih_pre = ih [THEN conjunct1]
  note ih_mem = ih [THEN conjunct2, THEN conjunct1]
  note ih_sub = ih [THEN conjunct2, THEN conjunct2, THEN conjunct1]
  note ih_inv = ih [THEN conjunct2, THEN conjunct2, THEN conjunct2]
  from ih_pre obtain ys where ys: "l0 = alist @ ys" ..
  have pre: "\<exists>zs. l = alist @ zs"
    using l ys by auto
  have mem: "r \<in> set l"
    using l by auto
  have sub: "set l \<subseteq> set alist \<union> {x. (x, r) \<in> (edges h)\<^sup>*}"
  proof
    fix x assume "x \<in> set l"
    then consider "x = r" | "x \<in> set l0" using l by (auto split: if_splits)
    then show "x \<in> set alist \<union> {x. (x, r) \<in> (edges h)\<^sup>*}"
    proof cases
      case 1
      then show ?thesis by simp
    next
      case 2
      with ih_sub have "x \<in> set alist \<union> {x. \<exists>s. Some s \<in> set (searched (h r)) \<and> (x, s) \<in> (edges h)\<^sup>*}"
        by (rule rev_subsetD [rotated])
      then have "x \<in> set alist \<or> (\<exists>s. Some s \<in> set (searched (h r)) \<and> (x, s) \<in> (edges h)\<^sup>*)"
        by simp
      then show ?thesis
      proof
        assume "x \<in> set alist" then show ?thesis by simp
      next
        assume "\<exists>s. Some s \<in> set (searched (h r)) \<and> (x, s) \<in> (edges h)\<^sup>*"
        then obtain s where "Some s \<in> set (searched (h r))" "(x, s) \<in> (edges h)\<^sup>*" by blast
        then have "(s, r) \<in> edges h" "(x, s) \<in> (edges h)\<^sup>*"
          by (simp_all add: edges_def)
        then have "(x, r) \<in> (edges h)\<^sup>*" by (rule rtrancl_into_rtrancl [rotated])
        then show ?thesis by simp
      qed
    qed
  qed
  have inv: "distinct l \<and> deps_first h searched l"
    if a: "distinct alist \<and> deps_first h searched alist"
  proof -
    from ih_inv a have i0: "distinct l0" "deps_first h searched l0" by simp_all
    show ?thesis
    proof (cases "r \<in> set l0")
      case True
      with l i0 show ?thesis by simp
    next
      case False
      from i0(2) ih_mem have "deps_first h searched (l0 @ [r])" by (rule deps_first_snoc)
      with False l i0(1) show ?thesis by simp
    qed
  qed
  from inv have "distinct alist \<and> deps_first h searched alist \<longrightarrow> distinct l \<and> deps_first h searched l"
    by (rule impI)
  with pre mem sub show ?case by (intro conjI)
next
  case (3 n h outList)
  then show ?case by simp
next
  case (4 n h inList outList)
  from "4.prems" have "doSearchDeep n h inList outList = Some l" by simp
  note ih = "4.IH" [OF this]
  have "\<forall>s. Some s \<in> set (None # inList) \<longrightarrow> s \<in> set l"
    using ih [THEN conjunct2, THEN conjunct1] by simp
  moreover have "set l \<subseteq> set outList \<union> {x. \<exists>s. Some s \<in> set (None # inList) \<and> (x, s) \<in> (edges h)\<^sup>*}"
    using ih [THEN conjunct2, THEN conjunct2, THEN conjunct1] by simp
  ultimately show ?case
    using ih [THEN conjunct1] ih [THEN conjunct2, THEN conjunct2, THEN conjunct2]
    by (intro conjI)
next
  case (5 n h element inList outList)
  from "5.prems" obtain l1 where
    s: "searchDeep n h element outList = Some l1" and
    d: "doSearchDeep n h inList l1 = Some l"
    by (auto split: option.splits)
  note ih1 = "5.IH"(1) [OF s]
  note ih2 = "5.IH"(2) [OF s d]
  note ih1_pre = ih1 [THEN conjunct1]
  note ih1_mem = ih1 [THEN conjunct2, THEN conjunct1]
  note ih1_sub = ih1 [THEN conjunct2, THEN conjunct2, THEN conjunct1]
  note ih1_inv = ih1 [THEN conjunct2, THEN conjunct2, THEN conjunct2]
  note ih2_pre = ih2 [THEN conjunct1]
  note ih2_mem = ih2 [THEN conjunct2, THEN conjunct1]
  note ih2_sub = ih2 [THEN conjunct2, THEN conjunct2, THEN conjunct1]
  note ih2_inv = ih2 [THEN conjunct2, THEN conjunct2, THEN conjunct2]
  from ih1_pre obtain ys1 where y1: "l1 = outList @ ys1" ..
  from ih2_pre obtain ys2 where y2: "l = l1 @ ys2" ..
  have pre: "\<exists>zs. l = outList @ zs" using y1 y2 by simp
  have "element \<in> set l" using ih1_mem y2 by simp
  with ih2_mem have mem: "\<forall>s. Some s \<in> set (Some element # inList) \<longrightarrow> s \<in> set l"
    by simp
  have sub: "set l \<subseteq> set outList \<union> {x. \<exists>s. Some s \<in> set (Some element # inList) \<and> (x, s) \<in> (edges h)\<^sup>*}"
  proof
    fix x assume "x \<in> set l"
    with ih2_sub have "x \<in> set l1 \<union> {x. \<exists>s. Some s \<in> set inList \<and> (x, s) \<in> (edges h)\<^sup>*}"
      by (rule rev_subsetD [rotated])
    then have c: "x \<in> set l1 \<or> (\<exists>s. Some s \<in> set inList \<and> (x, s) \<in> (edges h)\<^sup>*)"
      by simp
    have "x \<in> set outList \<or> (x, element) \<in> (edges h)\<^sup>*" if "x \<in> set l1"
    proof -
      from that ih1_sub have "x \<in> set outList \<union> {x. (x, element) \<in> (edges h)\<^sup>*}"
        by (rule rev_subsetD)
      then show ?thesis by simp
    qed
    with c have "x \<in> set outList \<or> (\<exists>s. Some s \<in> set (Some element # inList) \<and> (x, s) \<in> (edges h)\<^sup>*)"
      by fastforce
    then show "x \<in> set outList \<union> {x. \<exists>s. Some s \<in> set (Some element # inList) \<and> (x, s) \<in> (edges h)\<^sup>*}"
      by simp
  qed
  have inv: "distinct outList \<and> deps_first h searched outList \<longrightarrow> distinct l \<and> deps_first h searched l"
    using ih1_inv ih2_inv by simp
  from pre mem sub inv show ?case by (intro conjI)
qed

lemma fuel_Suc:
  "searchDeep n h r alist = Some l \<Longrightarrow> searchDeep (Suc n) h r alist = Some l"
  "doSearchDeep n h es alist = Some l \<Longrightarrow> doSearchDeep (Suc n) h es alist = Some l"
proof (induction n h r alist and n h es alist arbitrary: l and l rule: searchDeep_doSearchDeep.induct)
  case (1 h r alist)
  then show ?case by simp
next
  case (2 n h r alist)
  from "2.prems" obtain l0 where
    d: "doSearchDeep n h (searched (h r)) alist = Some l0" and
    l: "l = (if r \<in> set l0 then l0 else l0 @ [r])"
    by (auto split: option.splits)
  from "2.IH" [OF d] l show ?case by simp
next
  case (3 n h outList)
  then show ?case by simp
next
  case (4 n h inList outList)
  from "4.prems" have "doSearchDeep n h inList outList = Some l" by simp
  from "4.IH" [OF this] show ?case by simp
next
  case (5 n h element inList outList)
  from "5.prems" obtain l1 where
    s: "searchDeep n h element outList = Some l1" and
    d: "doSearchDeep n h inList l1 = Some l"
    by (auto split: option.splits)
  from "5.IH"(1) [OF s] "5.IH"(2) [OF s d] show ?case by simp
qed

lemma fuel_mono:
  assumes "searchDeep n h r alist = Some l" and "n \<le> m"
  shows "searchDeep m h r alist = Some l"
proof -
  have "searchDeep (n + k) h r alist = Some l" for k
  proof (induction k)
    case 0
    show ?case by (simp add: assms(1))
  next
    case (Suc k)
    from fuel_Suc(1) [OF Suc] show ?case by (simp only: add_Suc_right)
  qed
  from this [of "m - n"] assms(2) show ?thesis by simp
qed

lemma doSearchDeep_terminates:
  assumes "\<forall>s. Some s \<in> set es \<longrightarrow> (\<exists>n. \<forall>m\<ge>n. \<forall>al. searchDeep m h s al \<noteq> None)"
  shows "\<exists>N. \<forall>m\<ge>N. \<forall>al. doSearchDeep m h es al \<noteq> None"
  using assms
proof (induction es)
  case Nil
  then show ?case by simp
next
  case (Cons e es)
  from Cons.prems have "\<forall>s. Some s \<in> set es \<longrightarrow> (\<exists>n. \<forall>m\<ge>n. \<forall>al. searchDeep m h s al \<noteq> None)"
    by simp
  from Cons.IH [OF this] obtain N where N: "\<forall>m\<ge>N. \<forall>al. doSearchDeep m h es al \<noteq> None"
    by blast
  show ?case
  proof (cases e)
    case None
    with N show ?thesis by auto
  next
    case (Some x)
    with Cons.prems obtain n where n: "\<forall>m\<ge>n. \<forall>al. searchDeep m h x al \<noteq> None"
      by auto
    have "doSearchDeep m h (e # es) al \<noteq> None" if "max n N \<le> m" for m al
    proof -
      from that n obtain l1 where "searchDeep m h x al = Some l1" by auto
      moreover from that N have "doSearchDeep m h es l1 \<noteq> None" by simp
      ultimately show ?thesis using Some by simp
    qed
    then show ?thesis by blast
  qed
qed

lemma searchDeep_terminates:
  assumes "wf (graph_of h w)" and "r \<in> reachable h w"
  shows "\<exists>n. \<forall>m\<ge>n. \<forall>al. searchDeep m h r al \<noteq> None"
  using assms
proof (induction r rule: wf_induct_rule)
  case (less r)
  have "\<exists>n. \<forall>m\<ge>n. \<forall>al. searchDeep m h s al \<noteq> None" if s: "Some s \<in> set (searched (h r))" for s
  proof -
    from s have e: "(s, r) \<in> edges h" by (simp add: edges_def)
    with less.prems have g: "(s, r) \<in> graph_of h w" by (simp add: graph_of_def)
    from e less.prems have "s \<in> reachable h w"
      by (simp add: reachable_def converse_rtrancl_into_rtrancl)
    with less.IH [OF g] show ?thesis by blast
  qed
  then have "\<forall>s. Some s \<in> set (searched (h r)) \<longrightarrow> (\<exists>n. \<forall>m\<ge>n. \<forall>al. searchDeep m h s al \<noteq> None)"
    by blast
  from doSearchDeep_terminates [OF this] obtain N where
    N: "\<forall>m\<ge>N. \<forall>al. doSearchDeep m h (searched (h r)) al \<noteq> None" by blast
  have "searchDeep m h r al \<noteq> None" if "Suc N \<le> m" for m al
  proof -
    from that obtain m' where m: "m = Suc m'" "N \<le> m'" by (cases m) auto
    with N obtain l0 where "doSearchDeep m' h (searched (h r)) al = Some l0" by auto
    with m show ?thesis by simp
  qed
  then show ?case by blast
qed

lemma closed_list_reachable:
  assumes "deps_first h searched L" and "w \<in> set L" and "(x, w) \<in> (edges h)\<^sup>*"
  shows "x \<in> set L"
  using assms(3,2)
proof (induction rule: converse_rtrancl_induct)
  case base
  then show ?case .
next
  case (step y z)
  from step.IH [OF step.prems] obtain i where i: "i < length L" "L ! i = z"
    unfolding in_set_conv_nth by blast
  from step.hyps(1) have "Some y \<in> set (searched (h z))" by (simp add: edges_def)
  with assms(1) i obtain j where "j < i" "L ! j = y"
    unfolding deps_first_def by blast
  with i(1) show ?case
    unfolding in_set_conv_nth by (intro exI [of _ j]) simp
qed

lemma walk_acyclic:
  assumes fin: "finite (graph_of h w)" and acyc: "acyclic (graph_of h w)"
  shows "\<exists>n L. (\<forall>m\<ge>n. createDeepSearchList m h w = Some L)
           \<and> distinct L \<and> deps_first h searched L \<and> set L = reachable h w"
proof -
  from fin acyc have "wf (graph_of h w)" by (rule finite_acyclic_wf)
  moreover have "w \<in> reachable h w" by (simp add: reachable_def)
  ultimately have "\<exists>n. \<forall>m\<ge>n. \<forall>al. searchDeep m h w al \<noteq> None"
    by (rule searchDeep_terminates)
  then obtain n where n: "\<forall>m\<ge>n. \<forall>al. searchDeep m h w al \<noteq> None" ..
  then have "searchDeep n h w [] \<noteq> None" by simp
  then obtain L where L: "searchDeep n h w [] = Some L" by blast
  have all: "\<forall>m\<ge>n. createDeepSearchList m h w = Some L"
    unfolding createDeepSearchList_def using fuel_mono [OF L] by blast
  note inv = walk_invariant(1) [OF L]
  have "deps_first h searched []" by (simp add: deps_first_def)
  with inv have d: "distinct L" and f: "deps_first h searched L" by simp_all
  from inv have mem: "w \<in> set L" and sub: "set L \<subseteq> set [] \<union> {x. (x, w) \<in> (edges h)\<^sup>*}"
    by simp_all
  have "set L = reachable h w"
  proof
    show "set L \<subseteq> reachable h w" using sub by (auto simp: reachable_def)
    show "reachable h w \<subseteq> set L"
      using closed_list_reachable [OF f mem] by (auto simp: reachable_def)
  qed
  with all d f show ?thesis by blast
qed

lemma scene_heap_edges:
  "(s, r) \<in> edges scene_heap \<Longrightarrow> r < s \<and> s \<le> 11"
  by (auto simp: edges_def scene_heap_def searched_def new_object_def split: if_splits)

lemma scene_heap_graph:
  "finite (graph_of scene_heap 0)" "acyclic (graph_of scene_heap 0)"
proof -
  have sub: "graph_of scene_heap 0 \<subseteq> {(s, r). r < s \<and> s \<le> 11}"
    using scene_heap_edges by (auto simp: graph_of_def)
  have "{(s, r). r < s \<and> s \<le> (11::nat)} \<subseteq> {..11} \<times> {..11}" by auto
  then have "finite {(s, r). r < s \<and> s \<le> (11::nat)}"
    by (rule finite_subset) simp
  with sub show "finite (graph_of scene_heap 0)" by (rule finite_subset)
  have "{(s, r). r < s \<and> s \<le> (11::nat)} \<subseteq> less_than\<inverse>" by auto
  with sub have "graph_of scene_heap 0 \<subseteq> less_than\<inverse>" by (rule subset_trans)
  moreover have "acyclic (less_than\<inverse>)"
    by (simp add: wf_acyclic)
  ultimately show "acyclic (graph_of scene_heap 0)" by (rule acyclic_subset [rotated])
qed

lemma scene_heap_walk:
  "createDeepSearchList 6 scene_heap 0 = Some [3, 4, 8, 5, 6, 9, 11, 10, 7, 2, 1, 0]"
  by code_simp

lemma background_image_walk:
  "createDeepSearchList 2 background_image_heap 0 = Some [1, 0]"
  by code_simp

text \<open>
  A graph built by hand in which a background has a \<open>backgroundImage\<close>, which the
  translator never sets: \<open>M3GBackground\<close> has no \<open>searchDeep\<close> of its own, so the walk
  from the world (0) over the background (1) returns \<open>[1, 0]\<close> without the image (2).
\<close>

lemma background_image_not_followed:
  "kind (background_image_heap 0) = World [] None (Some 1)
   \<and> finite (ref_edges background_image_heap) \<and> acyclic (ref_edges background_image_heap)
   \<and> createDeepSearchList 2 background_image_heap 0 = Some [1, 0]
   \<and> Some 2 \<in> set (direct_refs (background_image_heap 1))
   \<and> \<not> deps_first background_image_heap direct_refs [1, 0]"
proof -
  have e: "ref_edges background_image_heap = {(1, 0), (2, 1)}"
    by (auto simp: ref_edges_def background_image_heap_def direct_refs_def new_object_def
        split: if_splits)
  have f: "finite (ref_edges background_image_heap)" unfolding e by simp
  have "{(1, 0), (2, 1 :: nat)} \<subseteq> less_than\<inverse>" by simp
  moreover have "acyclic (less_than\<inverse>)" by (simp add: wf_acyclic)
  ultimately have a: "acyclic (ref_edges background_image_heap)"
    unfolding e by (rule acyclic_subset [rotated])
  have d: "Some 2 \<in> set (direct_refs (background_image_heap 1))"
    by (simp add: background_image_heap_def direct_refs_def new_object_def)
  have n: "\<not> deps_first background_image_heap direct_refs [1, 0]"
  proof
    assume "deps_first background_image_heap direct_refs [1, 0]"
    then have "\<forall>s. Some s \<in> set (direct_refs (background_image_heap ([1, 0] ! 0)))
                 \<longrightarrow> (\<exists>j<0. [1, 0] ! j = s)"
      unfolding deps_first_def by (rule allE [of _ 0]) simp
    with d show False by simp
  qed
  have k: "kind (background_image_heap 0) = World [] None (Some 1)"
    by (simp add: background_image_heap_def new_object_def)
  from k f a background_image_walk d n show ?thesis by (intro conjI)
qed

section \<open>Properties of identifier assignment\<close>

lemma fold_assign_step_Cons:
  "fold assign_step (x # xs) (i, m) = fold assign_step xs (i + 1, m(x := i + 1))"
  by (simp add: assign_step_def)

lemma fold_assign_step_fst:
  "fst (fold assign_step xs (i, m)) = i + length xs"
proof (induction xs arbitrary: i m)
  case Nil
  show ?case by simp
next
  case (Cons x xs)
  show ?case unfolding fold_assign_step_Cons by (simp add: Cons.IH)
qed

lemma fold_assign_step_other:
  "r \<notin> set xs \<Longrightarrow> snd (fold assign_step xs (i, m)) r = m r"
proof (induction xs arbitrary: i m)
  case Nil
  show ?case by simp
next
  case (Cons x xs)
  then have "r \<notin> set xs" "r \<noteq> x" by auto
  then show ?case unfolding fold_assign_step_Cons by (simp add: Cons.IH)
qed

lemma fold_assign_step_nth:
  "distinct xs \<Longrightarrow> k < length xs \<Longrightarrow> snd (fold assign_step xs (i, m)) (xs ! k) = i + 1 + k"
proof (induction xs arbitrary: i m k)
  case Nil
  then show ?case by simp
next
  case (Cons x xs)
  then have d: "distinct xs" and nx: "x \<notin> set xs" by simp_all
  show ?case
  proof (cases k)
    case 0
    with nx show ?thesis unfolding fold_assign_step_Cons by (simp add: fold_assign_step_other)
  next
    case (Suc k')
    with Cons.prems have "k' < length xs" by simp
    from Cons.IH [OF d this] Suc show ?thesis unfolding fold_assign_step_Cons by simp
  qed
qed

lemma assign_ids_sequence:
  assumes d: "distinct found"
    and a: "assign_ids h found m = (ext, rest, m')"
  shows "ext = filter (isExternalReference h) found"
    and "rest = filter (\<lambda>element. \<not> isExternalReference h element) found"
    and "distinct (ext @ rest)" and "set (ext @ rest) = set found"
    and "\<forall>k < length (ext @ rest). m' ((ext @ rest) ! k) = k + 2"
    and "\<forall>r. r \<notin> set found \<longrightarrow> m' r = m r"
proof -
  let ?s1 = "fold assign_step ext (1, m)"
  from a show e: "ext = filter (isExternalReference h) found"
    and r: "rest = filter (\<lambda>element. \<not> isExternalReference h element) found"
    by (simp_all add: assign_ids_def Let_def)
  from a e r have m': "m' = snd (fold assign_step rest ?s1)"
    by (simp add: assign_ids_def Let_def)
  from d e r have de: "distinct ext" and dr: "distinct rest" and dj: "set ext \<inter> set rest = {}"
    by auto
  then show "distinct (ext @ rest)" by simp
  from e r show st: "set (ext @ rest) = set found" by auto
  have s1: "?s1 = (1 + length ext, snd ?s1)"
    using fold_assign_step_fst [of ext 1 m] by (simp add: prod_eq_iff)
  show "\<forall>k < length (ext @ rest). m' ((ext @ rest) ! k) = k + 2"
  proof (intro allI impI)
    fix k assume k: "k < length (ext @ rest)"
    show "m' ((ext @ rest) ! k) = k + 2"
    proof (cases "k < length ext")
      case True
      then have "ext ! k \<in> set ext" by simp
      with dj have "ext ! k \<notin> set rest" by auto
      then have "m' (ext ! k) = snd ?s1 (ext ! k)"
        unfolding m' by (subst s1) (rule fold_assign_step_other)
      also have "\<dots> = 1 + 1 + k"
        using de True by (rule fold_assign_step_nth)
      finally show ?thesis using True by (simp add: nth_append)
    next
      case False
      with k have k': "k - length ext < length rest" by simp
      have "m' (rest ! (k - length ext)) = (1 + length ext) + 1 + (k - length ext)"
        unfolding m' by (subst s1) (rule fold_assign_step_nth [OF dr k'])
      with False show ?thesis by (simp add: nth_append)
    qed
  qed
  show "\<forall>r. r \<notin> set found \<longrightarrow> m' r = m r"
  proof (intro allI impI)
    fix r assume "r \<notin> set found"
    with st have "r \<notin> set ext" "r \<notin> set rest" by auto
    then have "m' r = snd ?s1 r"
      unfolding m' by (subst s1) (simp add: fold_assign_step_other)
    also have "\<dots> = m r" using \<open>r \<notin> set ext\<close> by (rule fold_assign_step_other)
    finally show "m' r = m r" .
  qed
qed

lemma sequential_ids_inj:
  assumes "distinct L" and "\<forall>k < length L. (m :: nat \<Rightarrow> nat) (L ! k) = k + 2"
  shows "inj_on m (set L)" and "\<forall>r\<in>set L. 2 \<le> m r"
    and "\<forall>i j. i < j \<and> j < length L \<longrightarrow> m (L ! i) < m (L ! j)"
proof -
  show "inj_on m (set L)"
  proof (rule inj_onI)
    fix x y assume "x \<in> set L" "y \<in> set L" and eq: "m x = m y"
    then obtain i j where i: "i < length L" "L ! i = x" and j: "j < length L" "L ! j = y"
      unfolding in_set_conv_nth by blast
    with assms(2) have "m x = i + 2" "m y = j + 2" by auto
    with eq have "i = j" by simp
    with i j show "x = y" by simp
  qed
  show "\<forall>r\<in>set L. 2 \<le> m r"
  proof
    fix r assume "r \<in> set L"
    then obtain i where "i < length L" "L ! i = r"
      unfolding in_set_conv_nth by blast
    with assms(2) have "m r = i + 2" by auto
    then show "2 \<le> m r" by simp
  qed
  show "\<forall>i j. i < j \<and> j < length L \<longrightarrow> m (L ! i) < m (L ! j)"
    using assms(2) by simp
qed

lemma walk_ids:
  assumes "createDeepSearchList n h w = Some found"
    and "assign_ids h found m = (ext, rest, m')"
  shows "ext = filter (isExternalReference h) found
       \<and> rest = filter (\<lambda>element. \<not> isExternalReference h element) found
       \<and> (\<forall>k < length (ext @ rest). m' ((ext @ rest) ! k) = k + 2)
       \<and> inj_on m' (set found)
       \<and> (\<forall>i j. i < j \<and> j < length (ext @ rest) \<longrightarrow> m' ((ext @ rest) ! i) < m' ((ext @ rest) ! j))
       \<and> (\<forall>r\<in>set found. m' r \<noteq> 0 \<and> m' r \<noteq> 1)"
proof -
  have "deps_first h searched []" by (simp add: deps_first_def)
  with walk_invariant(1) [of n h w "[]" found] assms(1) have d: "distinct found"
    by (simp add: createDeepSearchList_def)
  note s = assign_ids_sequence [OF d assms(2)]
  note i = sequential_ids_inj [OF s(3) s(5)]
  from i(1) have "inj_on m' (set found)" unfolding s(4) .
  moreover have "\<forall>r\<in>set found. m' r \<noteq> 0 \<and> m' r \<noteq> 1"
  proof
    fix r assume "r \<in> set found"
    then have "r \<in> set (ext @ rest)" by (simp only: s(4))
    with i(2) have "2 \<le> m' r" by (rule bspec)
    then show "m' r \<noteq> 0 \<and> m' r \<noteq> 1" by simp
  qed
  ultimately show ?thesis using s(1,2,5) i(3) by (intro conjI)
qed


section \<open>Properties of the validation step\<close>


lemma validate_accepts:
  assumes "\<forall>obj\<in>set objs. length (active_layers obj) \<le> 1"
  shows "validate_all_nla_tracks objs = Inr ()"
  using assms
proof (induction objs)
  case Nil
  then show ?case by simp
next
  case (Cons obj rest)
  then have "length (active_layers obj) \<le> 1" and r: "validate_all_nla_tracks rest = Inr ()"
    by simp_all
  then have "validate_all_nla_tracks (obj # rest) = validate_all_nla_tracks rest"
    by (cases "animation_data obj") (simp_all add: active_layers_def Let_def)
  with r show ?case by simp
qed

lemma start_translates:
  assumes "\<forall>obj\<in>set objs. length (active_layers obj) \<le> 1"
  shows "M3GTranslator_start translate objs s = translate objs s"
  by (simp add: M3GTranslator_start_def validate_accepts [OF assms])


section \<open>Properties of the image cache\<close>

lemma getImage_hit:
  "images st f = Some r \<Longrightarrow> getImage f fl st = (r, st)"
  by (simp add: getImage_def)

lemma getImage_miss:
  assumes "images st f = None" and "getImage f fl st = (r, st')"
  shows "r = next_ref st" and "images st' = (images st)(f \<mapsto> r)"
    and "kind (store st' r) = (if fl then ExternalReference (basename f) else Image2D)"
    and "next_ref st' = next_ref st + 1"
  using assms by (auto simp: getImage_def create_image_def new_object_def split: if_splits)

lemma getImage_cached:
  "getImage f fl st = (r, st') \<Longrightarrow> images st' f = Some r \<and> images st \<subseteq>\<^sub>m images st'"
  by (cases "images st f")
    (auto simp: getImage_def create_image_def map_le_def split: if_splits)

lemma export_images_grows:
  "export_images fl fs st = (rs, st') \<Longrightarrow> images st \<subseteq>\<^sub>m images st'"
proof (induction fs arbitrary: st rs st')
  case Nil
  then show ?case by simp
next
  case (Cons f fs)
  obtain r st1 where g: "getImage f fl st = (r, st1)" by (cases "getImage f fl st")
  obtain rs1 st2 where e: "export_images fl fs st1 = (rs1, st2)"
    by (cases "export_images fl fs st1")
  from Cons.prems g e have "st' = st2" by simp
  with Cons.IH [OF e] getImage_cached [OF g] show ?case
    by (auto intro: map_le_trans)
qed

lemma export_images_all_cached:
  assumes "\<forall>f\<in>set fs. f \<in> dom (images st)"
  shows "export_images fl fs st = (map (\<lambda>f. the (images st f)) fs, st)"
  using assms
proof (induction fs)
  case Nil
  then show ?case by simp
next
  case (Cons f fs)
  then obtain r where "images st f = Some r" by auto
  then have "getImage f fl st = (the (images st f), st)" by (simp add: getImage_hit)
  moreover from Cons have "export_images fl fs st = (map (\<lambda>f. the (images st f)) fs, st)" by simp
  ultimately show ?case by simp
qed

lemma export_images_result:
  "export_images fl fs st = (rs, st') \<Longrightarrow>
     rs = map (\<lambda>f. the (images st' f)) fs \<and> (\<forall>f\<in>set fs. f \<in> dom (images st'))"
proof (induction fs arbitrary: st rs st')
  case Nil
  then show ?case by simp
next
  case (Cons f fs)
  obtain r st1 where g: "getImage f fl st = (r, st1)" by (cases "getImage f fl st")
  obtain rs1 st2 where e: "export_images fl fs st1 = (rs1, st2)"
    by (cases "export_images fl fs st1")
  from Cons.prems g e have x: "st' = st2" "rs = r # rs1" by simp_all
  from getImage_cached [OF g] have "images st1 f = Some r" by simp
  moreover from export_images_grows [OF e] have "images st1 \<subseteq>\<^sub>m images st2" .
  ultimately have "images st2 f = Some r"
    by (auto simp: map_le_def dom_def)
  with Cons.IH [OF e] x show ?case by auto
qed

text \<open>
  Claim C10, as amended. The image cache is not scoped to an export call: it only
  grows, and what one export put into it is what every later call gets. After an
  export that asked for the images \<open>fs\<close>, a later export asking for the same images
  gets the very same objects back, whatever its own \<open>textureExternal\<close> option is, and
  creates nothing.
\<close>

theorem image_cache_persists:
  assumes "export_images fl1 fs st = (rs1, st1)"
  shows "export_images fl2 fs st1 = (rs1, st1)
       \<and> images st \<subseteq>\<^sub>m images st1
       \<and> (\<forall>f\<in>set fs. images st1 f \<noteq> None)"
proof -
  from export_images_result [OF assms]
  have rs: "rs1 = map (\<lambda>f. the (images st1 f)) fs" and d: "\<forall>f\<in>set fs. f \<in> dom (images st1)"
    by simp_all
  from export_images_all_cached [OF d, of fl2] rs
  have "export_images fl2 fs st1 = (rs1, st1)" by simp
  moreover from d have "\<forall>f\<in>set fs. images st1 f \<noteq> None" by auto
  ultimately show ?thesis using export_images_grows [OF assms] by (intro conjI)
qed

theorem image_cache_persists_witness:
  "export_images False [''/t/a.png'', ''/t/b.png'', ''/t/a.png''] factory_init
     = ([0, 1, 0],
        \<lparr>images = [''/t/a.png'' \<mapsto> 0, ''/t/b.png'' \<mapsto> 1],
         store = (\<lambda>r. new_object Material)(0 := new_object Image2D, 1 := new_object Image2D),
         next_ref = 2\<rparr>)
   \<and> export_images True [''/t/a.png'', ''/t/b.png'', ''/t/a.png'']
        \<lparr>images = [''/t/a.png'' \<mapsto> 0, ''/t/b.png'' \<mapsto> 1],
         store = (\<lambda>r. new_object Material)(0 := new_object Image2D, 1 := new_object Image2D),
         next_ref = 2\<rparr>
     = ([0, 1, 0],
        \<lparr>images = [''/t/a.png'' \<mapsto> 0, ''/t/b.png'' \<mapsto> 1],
         store = (\<lambda>r. new_object Material)(0 := new_object Image2D, 1 := new_object Image2D),
         next_ref = 2\<rparr>)"
proof -
  let ?fs = "[''/t/a.png'', ''/t/b.png'', ''/t/a.png'']"
  let ?st1 = "\<lparr>images = [''/t/a.png'' \<mapsto> 0, ''/t/b.png'' \<mapsto> 1],
         store = (\<lambda>r. new_object Material)(0 := new_object Image2D, 1 := new_object Image2D),
         next_ref = 2\<rparr>"
  have a: "export_images False ?fs factory_init = ([0, 1, 0], ?st1)"
    by (simp add: getImage_def create_image_def factory_init_def)
  from image_cache_persists [OF a, of True] a show ?thesis by (intro conjI) simp_all
qed

text \<open>
  The claim as stated fails. In a fresh process an export with external textures gets
  an external reference for \<open>/t/a.png\<close>; after an earlier export of the same image
  with embedded textures the cache still maps the path to that export's \<open>Image2D\<close>,
  and the same export gets this object instead.
\<close>

theorem image_cache_counterexample:
  "image_kinds (export_images True [''/t/a.png''] factory_init) = [ExternalReference ''a.png'']
   \<and> images (snd (export_images False [''/t/a.png''] factory_init)) ''/t/a.png'' = Some 0
   \<and> image_kinds (export_images True [''/t/a.png'']
         (snd (export_images False [''/t/a.png''] factory_init))) = [Image2D]"
  by (simp add: image_kinds_def getImage_def create_image_def factory_init_def
      new_object_def basename_def)

lemma fan_nth:
  "fan a xs = map (\<lambda>i. [a, xs ! i, xs ! (i + 1)]) [0 ..< length xs - 1]"
proof (induction a xs rule: fan.induct)
  case (1 a b c rest)
  have "[0 ..< length (b # c # rest) - 1] = 0 # map Suc [0 ..< length (c # rest) - 1]"
    by (simp add: upt_conv_Cons map_Suc_upt del: upt_Suc)
  then show ?case
    using 1 by (simp add: comp_def del: upt_Suc)
qed simp_all

lemma fan_indices:
  assumes "ind \<noteq> []"
  shows "fan (hd ind) (tl ind)
         = map (\<lambda>i. [ind ! 0, ind ! i, ind ! (i + 1)]) [1 ..< length ind - 1]"
proof -
  obtain a xs where ind: "ind = a # xs" using assms by (cases ind) auto
  have "[1 ..< length ind - 1] = map Suc [0 ..< length xs - 1]"
  proof (cases xs)
    case Nil
    then show ?thesis unfolding ind by simp
  next
    case (Cons b ys)
    then have "Suc (length xs - 1) = length xs" by simp
    then show ?thesis unfolding ind by (simp add: map_Suc_upt del: upt_Suc)
  qed
  then show ?thesis
    unfolding ind by (simp add: fan_nth comp_def)
qed

lemma face_strips_cases:
  "length ind = 3 \<Longrightarrow> face_strips ind = [[ind ! 0, ind ! 1, ind ! 2]]"
  "length ind = 4 \<Longrightarrow> face_strips ind = [[ind ! 1, ind ! 2, ind ! 0, ind ! 3]]"
  "length ind \<noteq> 3 \<Longrightarrow> length ind \<noteq> 4 \<Longrightarrow>
     face_strips ind = map (\<lambda>i. [ind ! 0, ind ! i, ind ! (i + 1)]) [1 ..< length ind - 1]"
proof -
  show "face_strips ind = [[ind ! 0, ind ! 1, ind ! 2]]" if "length ind = 3"
  proof -
    from that obtain a b c where "ind = [a, b, c]"
      by (auto simp: length_Suc_conv numeral_3_eq_3)
    then show ?thesis by simp
  qed
  show "face_strips ind = [[ind ! 1, ind ! 2, ind ! 0, ind ! 3]]" if "length ind = 4"
  proof -
    from that obtain a b c d where "ind = [a, b, c, d]"
      by (auto simp: length_Suc_conv numeral_eq_Suc)
    then show ?thesis by simp
  qed
  show "face_strips ind = map (\<lambda>i. [ind ! 0, ind ! i, ind ! (i + 1)]) [1 ..< length ind - 1]"
    if n3: "length ind \<noteq> 3" and n4: "length ind \<noteq> 4"
  proof (cases ind)
    case Nil
    then show ?thesis by simp
  next
    case (Cons a rest)
    with n3 n4 have "face_strips ind = fan a rest"
      by (cases ind rule: face_strips.cases) auto
    with fan_indices [of ind] Cons show ?thesis by simp
  qed
qed

lemma emit_face_strips:
  "stripLengths (emit_face ind ts) = stripLengths ts @ map length (face_strips ind)"
  "indices (emit_face ind ts) = indices ts @ concat (face_strips ind)"
proof -
  let ?g = "\<lambda>i. [ind ! 0, ind ! i, ind ! (i + 1)]"
  consider "length ind = 3" | "length ind = 4" | "length ind \<noteq> 3" "length ind \<noteq> 4"
    by blast
  then have "stripLengths (emit_face ind ts) = stripLengths ts @ map length (face_strips ind)
           \<and> indices (emit_face ind ts) = indices ts @ concat (face_strips ind)"
  proof cases
    case 1
    then show ?thesis
      by (simp add: emit_face_def add_strip_def face_strips_cases(1))
  next
    case 2
    then show ?thesis
      by (simp add: emit_face_def add_strip_def face_strips_cases(2))
  next
    case 3
    then have e: "emit_face ind ts = fold (\<lambda>i. add_strip 3 (?g i)) [1 ..< length ind - 1] ts"
      by (simp add: emit_face_def)
    have f: "face_strips ind = map ?g [1 ..< length ind - 1]"
      using 3 by (rule face_strips_cases(3))
    have "map length (map ?g [1 ..< length ind - 1])
          = replicate (length [1 ..< length ind - 1]) 3"
      by (simp add: comp_def map_replicate_const del: upt_Suc)
    with fold_add_strip [of 3 ?g "[1 ..< length ind - 1]" ts]
    show ?thesis unfolding e f by (simp only:)
  qed
  then show "stripLengths (emit_face ind ts) = stripLengths ts @ map length (face_strips ind)"
    and "indices (emit_face ind ts) = indices ts @ concat (face_strips ind)"
    by simp_all
qed

lemma resolve_face_tied:
  "resolve_face resolve f k0 vs st = (ind, st') \<Longrightarrow>
     length ind = length vs
     \<and> (\<forall>k<length vs. \<exists>s. ind ! k = fst (resolve s f (k0 + k) (vs ! k)))"
proof (induction vs arbitrary: k0 st ind st')
  case Nil
  then show ?case by simp
next
  case (Cons v vs)
  obtain i st1 where r: "resolve st f k0 v = (i, st1)"
    by (cases "resolve st f k0 v")
  obtain js st2 where rr: "resolve_face resolve f (Suc k0) vs st1 = (js, st2)"
    by (cases "resolve_face resolve f (Suc k0) vs st1")
  from Cons.prems r rr have ind: "ind = i # js" by simp
  note ih = Cons.IH [OF rr]
  have "\<exists>s. ind ! k = fst (resolve s f (k0 + k) ((v # vs) ! k))" if "k < length (v # vs)" for k
  proof (cases k)
    case 0
    with r ind have "ind ! k = fst (resolve st f (k0 + k) ((v # vs) ! k))" by simp
    then show ?thesis ..
  next
    case (Suc k')
    with that have "k' < length vs" by simp
    with ih obtain s where "js ! k' = fst (resolve s f (Suc k0 + k') (vs ! k'))" by blast
    with Suc ind have "ind ! k = fst (resolve s f (k0 + k) ((v # vs) ! k))" by simp
    then show ?thesis ..
  qed
  with ih ind show ?case by simp
qed

lemma fold_translate_face:
  "fold (translate_face resolve) faces (st, ts) = (st', ts') \<Longrightarrow>
     \<exists>inds. list_all2 (\<lambda>f ind. length ind = length (vertices f)
                  \<and> (\<forall>k<length ind. \<exists>s. ind ! k = fst (resolve s f k (vertices f ! k))))
               faces inds
       \<and> stripLengths ts' = stripLengths ts @ map length (concat (map face_strips inds))
       \<and> indices ts' = indices ts @ concat (concat (map face_strips inds))"
proof (induction faces arbitrary: st ts)
  case Nil
  then show ?case by simp
next
  case (Cons f faces)
  obtain ind st1 where r: "resolve_face resolve f 0 (vertices f) st = (ind, st1)"
    by (cases "resolve_face resolve f 0 (vertices f) st")
  then have t: "translate_face resolve f (st, ts) = (st1, emit_face ind ts)"
    by (simp add: translate_face_def)
  with Cons.prems have "fold (translate_face resolve) faces (st1, emit_face ind ts) = (st', ts')"
    by simp
  from Cons.IH [OF this] obtain inds where
    a: "list_all2 (\<lambda>f ind. length ind = length (vertices f)
                  \<and> (\<forall>k<length ind. \<exists>s. ind ! k = fst (resolve s f k (vertices f ! k))))
               faces inds" and
    l: "stripLengths ts' = stripLengths (emit_face ind ts) @ map length (concat (map face_strips inds))" and
    i: "indices ts' = indices (emit_face ind ts) @ concat (concat (map face_strips inds))"
    by blast
  from resolve_face_tied [OF r]
  have p: "length ind = length (vertices f)
        \<and> (\<forall>k<length ind. \<exists>s. ind ! k = fst (resolve s f k (vertices f ! k)))"
    by simp
  from p a have "list_all2 (\<lambda>f ind. length ind = length (vertices f)
                  \<and> (\<forall>k<length ind. \<exists>s. ind ! k = fst (resolve s f k (vertices f ! k))))
               (f # faces) (ind # inds)"
    by simp
  moreover from l have "stripLengths ts' = stripLengths ts @ map length (concat (map face_strips (ind # inds)))"
    by (simp add: emit_face_strips(1))
  moreover from i have "indices ts' = indices ts @ concat (concat (map face_strips (ind # inds)))"
    by (simp add: emit_face_strips(2))
  ultimately show ?case by blast
qed

text \<open>
  Claim C6. \<open>translateFaces\<close> returns a strip array that holds, face after face in the
  order of the list, the strips of every face: with \<open>inds ! i\<close> the vertex-buffer
  indices that the lookup returned for the vertices of face \<open>i\<close>, position by position,
  its strip lengths are the lengths of all \<open>face_strips (inds ! i)\<close> and its indices
  their concatenation. For a face of 3 vertices that is exactly one strip of length 3
  with the three indices in order; for a face of 4 vertices exactly one strip of
  length 4 in the order second, third, first, fourth; for a face of \<open>n \<ge> 5\<close> vertices
  exactly \<open>n - 2\<close> strips of length 3, the fan \<open>(0, i, i + 1)\<close> for \<open>i = 1 .. n - 2\<close>.
\<close>

theorem translateFaces_strips:
  assumes "translateFaces resolve faces st = (st', ts)"
  shows "\<exists>inds. length inds = length faces
       \<and> (\<forall>i<length faces. length (inds ! i) = length (vertices (faces ! i))
             \<and> (\<forall>k<length (inds ! i).
                   \<exists>s. inds ! i ! k = fst (resolve s (faces ! i) k (vertices (faces ! i) ! k))))
       \<and> stripLengths ts = map length (concat (map face_strips inds))
       \<and> indices ts = concat (concat (map face_strips inds))
       \<and> (\<forall>ind\<in>set inds.
             (length ind = 3 \<longrightarrow> face_strips ind = [[ind ! 0, ind ! 1, ind ! 2]])
           \<and> (length ind = 4 \<longrightarrow> face_strips ind = [[ind ! 1, ind ! 2, ind ! 0, ind ! 3]])
           \<and> (5 \<le> length ind \<longrightarrow>
                 face_strips ind = map (\<lambda>i. [ind ! 0, ind ! i, ind ! (i + 1)]) [1 ..< length ind - 1]
               \<and> length (face_strips ind) = length ind - 2
               \<and> (\<forall>strip\<in>set (face_strips ind). length strip = 3)))"
proof -
  from assms have "fold (translate_face resolve) faces (st, \<lparr>indices = [], stripLengths = []\<rparr>) = (st', ts)"
    by (simp add: translateFaces_def)
  from fold_translate_face [OF this] obtain inds where
    a: "list_all2 (\<lambda>f ind. length ind = length (vertices f)
                  \<and> (\<forall>k<length ind. \<exists>s. ind ! k = fst (resolve s f k (vertices f ! k))))
               faces inds" and
    l: "stripLengths ts = map length (concat (map face_strips inds))" and
    i: "indices ts = concat (concat (map face_strips inds))"
    by auto
  from a have len: "length inds = length faces"
    by (simp add: list_all2_lengthD)
  from a have tie: "\<forall>i<length faces. length (inds ! i) = length (vertices (faces ! i))
             \<and> (\<forall>k<length (inds ! i).
                   \<exists>s. inds ! i ! k = fst (resolve s (faces ! i) k (vertices (faces ! i) ! k)))"
    by (simp add: list_all2_conv_all_nth)
  have cases: "(length ind = 3 \<longrightarrow> face_strips ind = [[ind ! 0, ind ! 1, ind ! 2]])
           \<and> (length ind = 4 \<longrightarrow> face_strips ind = [[ind ! 1, ind ! 2, ind ! 0, ind ! 3]])
           \<and> (5 \<le> length ind \<longrightarrow>
                 face_strips ind = map (\<lambda>i. [ind ! 0, ind ! i, ind ! (i + 1)]) [1 ..< length ind - 1]
               \<and> length (face_strips ind) = length ind - 2
               \<and> (\<forall>strip\<in>set (face_strips ind). length strip = 3))" for ind
  proof (intro conjI impI)
    assume "length ind = 3" then show "face_strips ind = [[ind ! 0, ind ! 1, ind ! 2]]"
      by (rule face_strips_cases(1))
  next
    assume "length ind = 4" then show "face_strips ind = [[ind ! 1, ind ! 2, ind ! 0, ind ! 3]]"
      by (rule face_strips_cases(2))
  next
    assume "5 \<le> length ind"
    then have f: "face_strips ind = map (\<lambda>i. [ind ! 0, ind ! i, ind ! (i + 1)]) [1 ..< length ind - 1]"
      by (intro face_strips_cases(3)) simp_all
    then show "face_strips ind = map (\<lambda>i. [ind ! 0, ind ! i, ind ! (i + 1)]) [1 ..< length ind - 1]" .
    from f show "length (face_strips ind) = length ind - 2" by simp
    from f show "\<forall>strip\<in>set (face_strips ind). length strip = 3" by auto
  qed
  from len tie l i cases show ?thesis by blast
qed

theorem translateFaces_strips_witness:
  "translateFaces (\<lambda>st f k v. (v + 10, Suc st))
       [\<lparr>vertices = [0, 1, 2]\<rparr>, \<lparr>vertices = [2, 1, 3, 4]\<rparr>, \<lparr>vertices = [4, 5, 6, 7, 8]\<rparr>] 0
     = (12, \<lparr>indices = [10, 11, 12, 11, 13, 12, 14, 14, 15, 16, 14, 16, 17, 14, 17, 18],
            stripLengths = [3, 4, 3, 3, 3]\<rparr>)
   \<and> (\<exists>inds. length inds = 3
        \<and> [3, 4, 3, 3, 3] = map length (concat (map face_strips inds))
        \<and> [10, 11, 12, 11, 13, 12, 14, 14, 15, 16, 14, 16, 17, 14, 17, 18]
            = concat (concat (map face_strips inds)))"
proof -
  let ?r = "\<lambda>(st::nat) (f::face) (k::nat) (v::nat). (v + 10, Suc st)"
  let ?faces = "[\<lparr>vertices = [0, 1, 2]\<rparr>, \<lparr>vertices = [2, 1, 3, 4]\<rparr>, \<lparr>vertices = [4, 5, 6, 7, 8]\<rparr>]"
  let ?ts = "\<lparr>indices = [10, 11, 12, 11, 13, 12, 14, 14, 15, 16, 14, 16, 17, 14, 17, 18],
            stripLengths = [3, 4, 3, 3, 3]\<rparr>"
  have n: "[1 ..< 4] = [1, 2, 3::nat]" by (simp add: upt_rec)
  have a: "translateFaces ?r ?faces 0 = (12, ?ts)"
    by (simp add: translateFaces_def translate_face_def emit_face_def add_strip_def n)
  from translateFaces_strips [OF a] obtain inds where
    "length inds = length ?faces"
    "stripLengths ?ts = map length (concat (map face_strips inds))"
    "indices ?ts = concat (concat (map face_strips inds))"
    by blast
  then have "\<exists>inds. length inds = 3
        \<and> [3, 4, 3, 3, 3] = map length (concat (map face_strips inds))
        \<and> [10, 11, 12, 11, 13, 12, 14, 14, 15, 16, 14, 16, 17, 14, 17, 18]
            = concat (concat (map face_strips inds))"
    by (intro exI [of _ inds]) simp
  with a show ?thesis by (intro conjI)
qed

text \<open>
  Claim C3. In an export whose translation returned a store and a world and whose
  closure walk returned the list \<open>found\<close>, \<open>M3GExporter.start\<close> splits \<open>found\<close> into the
  external references and the remaining objects, assigns identifiers along external
  references first, then the rest, each in collected order, and hands exactly these
  identifiers and lists to the writer: the object at position \<open>k\<close> of the combined
  list has identifier \<open>k + 2\<close>. Hence no two distinct objects get the same
  identifier, identifiers increase strictly along the combined list, neither 0 nor 1
  is assigned, and no other object's identifier changes.
\<close>

theorem export_sequential_ids:
  assumes "M3GTranslator_start translate objs s = (Inr (h, w), s1)"
    and "createDeepSearchList depth h w = Some found"
    and "assign_ids h found m = (ext, rest, m')"
  shows "M3GExporter_start depth translate writeFile objs m s
           = (case writeFile h m' w rest ext s1 of
                (Inl e, s2) \<Rightarrow> (Inl e, s2)
              | (Inr u, s2) \<Rightarrow> (Inr m', s2))
       \<and> ext = filter (isExternalReference h) found
       \<and> rest = filter (\<lambda>element. \<not> isExternalReference h element) found
       \<and> (\<forall>k < length (ext @ rest). m' ((ext @ rest) ! k) = k + 2)
       \<and> inj_on m' (set found)
       \<and> (\<forall>i j. i < j \<and> j < length (ext @ rest) \<longrightarrow> m' ((ext @ rest) ! i) < m' ((ext @ rest) ! j))
       \<and> (\<forall>r\<in>set found. m' r \<noteq> 0 \<and> m' r \<noteq> 1)
       \<and> (\<forall>r. r \<notin> set found \<longrightarrow> m' r = m r)"
proof -
  have run: "M3GExporter_start depth translate writeFile objs m s
           = (case writeFile h m' w rest ext s1 of
                (Inl e, s2) \<Rightarrow> (Inl e, s2)
              | (Inr u, s2) \<Rightarrow> (Inr m', s2))"
    by (simp add: M3GExporter_start_def assms)
  note ids = walk_ids [OF assms(2,3)]
  have "deps_first h searched []" by (simp add: deps_first_def)
  with walk_invariant(1) [of depth h w "[]" found] assms(2) have d: "distinct found"
    by (simp add: createDeepSearchList_def)
  note keep = assign_ids_sequence(6) [OF d assms(3)]
  from run ids [THEN conjunct1] ids [THEN conjunct2, THEN conjunct1]
    ids [THEN conjunct2, THEN conjunct2, THEN conjunct1]
    ids [THEN conjunct2, THEN conjunct2, THEN conjunct2, THEN conjunct1]
    ids [THEN conjunct2, THEN conjunct2, THEN conjunct2, THEN conjunct2, THEN conjunct1]
    ids [THEN conjunct2, THEN conjunct2, THEN conjunct2, THEN conjunct2, THEN conjunct2]
    keep
  show ?thesis by (intro conjI)
qed

theorem export_sequential_ids_witness:
  "M3GTranslator_start (\<lambda>objs s. (Inr (scene_heap, 0), Suc s)) [] (0::nat)
     = (Inr (scene_heap, 0), 1)
   \<and> createDeepSearchList 6 scene_heap 0 = Some [3, 4, 8, 5, 6, 9, 11, 10, 7, 2, 1, 0]
   \<and> M3GExporter_start 6 (\<lambda>objs s. (Inr (scene_heap, 0), Suc s))
        (\<lambda>h m w l e s. (Inr (), if l = [3, 4, 8, 5, 6, 9, 10, 7, 2, 1, 0] \<and> e = [11] then 7 else 9))
        [] (\<lambda>r. 0) 0
     = (Inr (snd (snd (assign_ids scene_heap [3, 4, 8, 5, 6, 9, 11, 10, 7, 2, 1, 0] (\<lambda>r. 0)))), 7)
   \<and> map (snd (snd (assign_ids scene_heap [3, 4, 8, 5, 6, 9, 11, 10, 7, 2, 1, 0] (\<lambda>r. 0))))
          [11, 3, 4, 8, 5, 6, 9, 10, 7, 2, 1, 0]
        = [2, 3, 4, 5, 6, 7, 8, 9, 10, 11, 12, 13]"
proof -
  let ?found = "[3, 4, 8, 5, 6, 9, 11, 10, 7, 2, 1, 0 :: nat]"
  let ?a = "assign_ids scene_heap ?found (\<lambda>r. 0)"
  let ?tr = "\<lambda>(objs :: scene_object list) (s::nat). (Inr (scene_heap, 0::nat) :: m3g_error + heap \<times> ref, Suc s)"
  let ?wr = "\<lambda>(h::heap) (m::ids) (w::ref) (l::ref list) (e::ref list) (s::nat).
               (Inr () :: m3g_error + unit, if l = [3, 4, 8, 5, 6, 9, 10, 7, 2, 1, 0] \<and> e = [11] then 7 else 9 :: nat)"
  have st: "M3GTranslator_start ?tr [] 0 = (Inr (scene_heap, 0), 1)"
    by (simp add: M3GTranslator_start_def)
  have c: "?a = (fst ?a, fst (snd ?a), snd (snd ?a))" by simp
  note t = export_sequential_ids [OF st scene_heap_walk c, where writeFile = ?wr]
  have x: "filter (isExternalReference scene_heap) ?found = [11]"
    and y: "filter (\<lambda>element. \<not> isExternalReference scene_heap element) ?found
            = [3, 4, 8, 5, 6, 9, 10, 7, 2, 1, 0]"
    by (simp_all add: isExternalReference_def scene_heap_def new_object_def)
  from t [THEN conjunct2, THEN conjunct1] x have e: "fst ?a = [11]" by (simp only:)
  from t [THEN conjunct2, THEN conjunct2, THEN conjunct1] y
  have r: "fst (snd ?a) = [3, 4, 8, 5, 6, 9, 10, 7, 2, 1, 0]" by (simp only:)
  have run: "M3GExporter_start 6 ?tr ?wr [] (\<lambda>r. 0) 0 = (Inr (snd (snd ?a)), 7)"
    using t [THEN conjunct1] unfolding e r by simp
  have n: "\<forall>k < length ([11] @ [3, 4, 8, 5, 6, 9, 10, 7, 2, 1, 0 :: nat]).
             snd (snd ?a) (([11] @ [3, 4, 8, 5, 6, 9, 10, 7, 2, 1, 0]) ! k) = k + 2"
    using t [THEN conjunct2, THEN conjunct2, THEN conjunct2, THEN conjunct1] unfolding e r .
  have "snd (snd ?a) (([11] @ [3, 4, 8, 5, 6, 9, 10, 7, 2, 1, 0]) ! k) = k + 2" if "k < 12" for k
    using n that by simp
  from this [of 0] this [of 1] this [of 2] this [of 3] this [of 4] this [of 5]
    this [of 6] this [of 7] this [of 8] this [of 9] this [of 10] this [of 11]
  have m: "map (snd (snd ?a)) [11, 3, 4, 8, 5, 6, 9, 10, 7, 2, 1, 0]
        = [2, 3, 4, 5, 6, 7, 8, 9, 10, 11, 12, 13]"
    by simp
  from st scene_heap_walk run m show ?thesis by (intro conjI)
qed

lemma searched_unfold:
  "searched obj = (if \<exists>u. kind obj = ExternalReference u then []
                   else class_searched (kind obj) @ animationTracks obj)"
  by (cases "kind obj") (simp_all add: searched_def)

lemma direct_refs_unfold:
  "direct_refs obj = (if \<exists>u. kind obj = ExternalReference u then []
                   else class_refs (kind obj) @ animationTracks obj @ [zReference obj, yReference obj])"
  by (cases "kind obj") (simp_all add: direct_refs_def)

lemma class_refs_split:
  "x \<in> set (class_refs k) \<Longrightarrow>
     x \<in> set (class_searched k) \<or> k = Background x
     \<or> (\<exists>sk vb ib ap bs. k = SkinnedMesh sk vb ib ap bs \<and> x \<in> set bs)"
  by (cases k) auto

lemma class_searched_refs:
  "x \<in> set (class_searched k) \<Longrightarrow> x \<in> set (class_refs k)"
  by (cases k) auto

lemma direct_refs_split:
  assumes "Some s \<in> set (direct_refs obj)"
  shows "Some s \<in> set (searched obj) \<or> zReference obj = Some s \<or> yReference obj = Some s
       \<or> kind obj = Background (Some s)
       \<or> (\<exists>sk vb ib ap bs. kind obj = SkinnedMesh sk vb ib ap bs \<and> Some s \<in> set bs)"
proof (cases "\<exists>u. kind obj = ExternalReference u")
  case True
  with assms show ?thesis by (simp add: direct_refs_unfold)
next
  case False
  with assms consider "Some s \<in> set (class_refs (kind obj))"
    | "Some s \<in> set (animationTracks obj)" | "zReference obj = Some s" | "yReference obj = Some s"
    unfolding direct_refs_unfold by fastforce
  then show ?thesis
  proof cases
    case 1
    from class_refs_split [OF this] False show ?thesis
      unfolding searched_unfold [of obj] by fastforce
  next
    case 2
    with False show ?thesis unfolding searched_unfold [of obj] by simp
  next
    case 3
    then show ?thesis by simp
  next
    case 4
    then show ?thesis by simp
  qed
qed

lemma searched_direct_refs:
  assumes "Some s \<in> set (searched obj)"
  shows "Some s \<in> set (direct_refs obj)"
proof (cases "\<exists>u. kind obj = ExternalReference u")
  case True
  with assms show ?thesis by (simp add: searched_unfold)
next
  case False
  with assms have "Some s \<in> set (class_searched (kind obj)) \<or> Some s \<in> set (animationTracks obj)"
    unfolding searched_unfold [of obj] by simp
  then have "Some s \<in> set (class_refs (kind obj)) \<or> Some s \<in> set (animationTracks obj)"
    using class_searched_refs by blast
  with False show ?thesis unfolding direct_refs_unfold [of obj] by auto
qed

lemma skeleton_searched:
  "kind obj = SkinnedMesh (Some s) vb ib ap bs \<Longrightarrow> Some s \<in> set (searched obj)"
  by (simp add: searched_unfold)

lemma deps_first_below:
  assumes d: "deps_first h searched L" and i: "i < length L"
    and x: "(x, L ! i) \<in> (edges h)\<^sup>*"
  shows "\<exists>j\<le>i. L ! j = x"
  using x
proof (induction rule: converse_rtrancl_induct)
  case base
  show ?case by blast
next
  case (step y z)
  then obtain j where j: "j \<le> i" "L ! j = z" by blast
  from step.hyps(1) have "Some y \<in> set (searched (h z))" by (simp add: edges_def)
  with d j i obtain j' where "j' < j" "L ! j' = y"
    unfolding deps_first_def by (meson le_less_trans)
  with j(1) have "j' \<le> i" "L ! j' = y" by simp_all
  then show ?case by blast
qed

lemma deps_first_built:
  assumes d: "deps_first h searched L" and r: "set L = reachable h w"
    and b: "translator_built h w"
  shows "deps_first h direct_refs L"
  unfolding deps_first_def
proof (intro allI impI)
  fix i s
  assume i: "i < length L" and s: "Some s \<in> set (direct_refs (h (L ! i)))"
  from i r have "L ! i \<in> reachable h w" by (metis nth_mem)
  with b have z: "zReference (h (L ! i)) = None" and y: "yReference (h (L ! i)) = None"
    and bg: "\<forall>img. kind (h (L ! i)) = Background img \<longrightarrow> img = None"
    and sm: "\<forall>sk vb ib ap bs b. kind (h (L ! i)) = SkinnedMesh sk vb ib ap bs \<and> Some b \<in> set bs
              \<longrightarrow> (\<exists>s. sk = Some s \<and> (b, s) \<in> (edges h)\<^sup>*)"
    unfolding translator_built_def by blast+
  from direct_refs_split [OF s] z y bg
  consider "Some s \<in> set (searched (h (L ! i)))"
    | sk vb ib ap bs where "kind (h (L ! i)) = SkinnedMesh sk vb ib ap bs" "Some s \<in> set bs"
    by auto
  then show "\<exists>j<i. L ! j = s"
  proof cases
    case 1
    with d i show ?thesis unfolding deps_first_def by blast
  next
    case 2
    with sm obtain s0 where s0: "sk = Some s0" "(s, s0) \<in> (edges h)\<^sup>*" by blast
    with 2(1) have "Some s0 \<in> set (searched (h (L ! i)))"
      by (simp add: skeleton_searched)
    with d i obtain j where j: "j < i" "L ! j = s0"
      unfolding deps_first_def by blast
    with i have "j < length L" by simp
    from deps_first_below [OF d this] s0(2) j(2) obtain j' where "j' \<le> j" "L ! j' = s"
      by auto
    with j(1) have "j' < i" "L ! j' = s" by simp_all
    then show ?thesis by blast
  qed
qed

lemma skinned_heap_edges:
  "(s, r) \<in> edges skinned_heap \<Longrightarrow> r < s \<and> s \<le> 5"
  by (auto simp: edges_def skinned_heap_def searched_def new_object_def split: if_splits)

lemma skinned_heap_graph:
  "finite (graph_of skinned_heap 0)" "acyclic (graph_of skinned_heap 0)"
proof -
  have sub: "graph_of skinned_heap 0 \<subseteq> {(s, r). r < s \<and> s \<le> 5}"
    using skinned_heap_edges by (auto simp: graph_of_def)
  have "{(s, r). r < s \<and> s \<le> (5::nat)} \<subseteq> {..5} \<times> {..5}" by auto
  then have "finite {(s, r). r < s \<and> s \<le> (5::nat)}"
    by (rule finite_subset) simp
  with sub show "finite (graph_of skinned_heap 0)" by (rule finite_subset)
  have "{(s, r). r < s \<and> s \<le> (5::nat)} \<subseteq> less_than\<inverse>" by auto
  with sub have "graph_of skinned_heap 0 \<subseteq> less_than\<inverse>" by (rule subset_trans)
  moreover have "acyclic (less_than\<inverse>)"
    by (simp add: wf_acyclic)
  ultimately show "acyclic (graph_of skinned_heap 0)" by (rule acyclic_subset [rotated])
qed

lemma skinned_heap_built: "translator_built skinned_heap 0"
proof -
  have e32: "(3, 2) \<in> edges skinned_heap" and e53: "(5, 3) \<in> edges skinned_heap"
    by (simp_all add: edges_def skinned_heap_def searched_def new_object_def)
  then have r3: "(3, 2) \<in> (edges skinned_heap)\<^sup>*" and r5: "(5, 2) \<in> (edges skinned_heap)\<^sup>*"
    by auto
  have "zReference (skinned_heap r) = None \<and> yReference (skinned_heap r) = None
        \<and> (\<forall>img. kind (skinned_heap r) = Background img \<longrightarrow> img = None)
        \<and> (\<forall>sk vb ib ap bs b. kind (skinned_heap r) = SkinnedMesh sk vb ib ap bs \<and> Some b \<in> set bs
              \<longrightarrow> (\<exists>s. sk = Some s \<and> (b, s) \<in> (edges skinned_heap)\<^sup>*))" for r
    using r3 r5 by (auto simp: skinned_heap_def new_object_def split: if_splits)
  then show ?thesis unfolding translator_built_def by blast
qed

lemma skinned_heap_walk:
  "createDeepSearchList 5 skinned_heap 0 = Some [4, 5, 3, 2, 1, 0]"
  by code_simp

text \<open>
  Claim C4. For every finite acyclic object graph as the translator builds it, the
  closure walk from the root returns (for every bound on its nesting from some bound
  on, the same list) a list without repeated object identities, holding exactly the
  objects reachable from the root, in which every object directly referenced by a
  collected object (children, active camera, background, vertex arrays of a vertex
  buffer, vertex buffer, index buffers and appearances of a mesh, compositing mode,
  fog, polygon mode, material and textures of an appearance, the image of a texture,
  animation tracks, keyframe sequence and controller of a track, skeleton and bone
  nodes of a skinned mesh, alignment references) stands before the referencing
  object.
\<close>

theorem closure_walk_ordered:
  assumes "finite (graph_of h w)" and "acyclic (graph_of h w)" and "translator_built h w"
  shows "\<exists>n L. (\<forall>m\<ge>n. createDeepSearchList m h w = Some L)
           \<and> distinct L \<and> deps_first h direct_refs L \<and> set L = reachable h w"
proof -
  from walk_acyclic [OF assms(1,2)] obtain n L where
    w: "\<forall>m\<ge>n. createDeepSearchList m h w = Some L" and d: "distinct L"
    and f: "deps_first h searched L" and r: "set L = reachable h w"
    by blast
  from f r assms(3) have "deps_first h direct_refs L" by (rule deps_first_built)
  with w d r show ?thesis by blast
qed

theorem closure_walk_ordered_witness:
  "finite (graph_of skinned_heap 0) \<and> acyclic (graph_of skinned_heap 0)
   \<and> translator_built skinned_heap 0
   \<and> createDeepSearchList 5 skinned_heap 0 = Some [4, 5, 3, 2, 1, 0]
   \<and> distinct [4, 5, 3, 2, 1, 0 :: nat]
   \<and> deps_first skinned_heap direct_refs [4, 5, 3, 2, 1, 0]
   \<and> set [4, 5, 3, 2, 1, 0] = reachable skinned_heap 0"
proof -
  from closure_walk_ordered [OF skinned_heap_graph skinned_heap_built] obtain n L where
    w: "\<forall>m\<ge>n. createDeepSearchList m skinned_heap 0 = Some L" and d: "distinct L"
    and f: "deps_first skinned_heap direct_refs L" and r: "set L = reachable skinned_heap 0"
    by blast
  from w have "createDeepSearchList (max n 5) skinned_heap 0 = Some L" by simp
  moreover from skinned_heap_walk have "createDeepSearchList (max n 5) skinned_heap 0 = Some [4, 5, 3, 2, 1, 0]"
    unfolding createDeepSearchList_def by (rule fuel_mono) simp
  ultimately have "L = [4, 5, 3, 2, 1, 0]" by simp
  with d f r skinned_heap_graph skinned_heap_built skinned_heap_walk show ?thesis
    by (intro conjI) simp_all
qed




section \<open>Properties of the quantization\<close>

lemma for_each_snoc:
  "for_each (xs @ [x]) body s =
     (case for_each xs body s of Inl e \<Rightarrow> Inl e | Inr s' \<Rightarrow> body x s')"
  by (induction xs arbitrary: s) (auto split: sum.splits)

lemma for_each_upt_Suc:
  "for_each [0 ..< Suc k] body s =
     (case for_each [0 ..< k] body s of Inl e \<Rightarrow> Inl e | Inr s' \<Rightarrow> body k s')"
  using for_each_snoc [of "[0 ..< k]" k body s] by simp

lemma for_each_blocks_Suc:
  "for_each (map (\<lambda>k. k * cc) [0 ..< Suc b]) body s =
     (case for_each (map (\<lambda>k. k * cc) [0 ..< b]) body s of
        Inl e \<Rightarrow> Inl e | Inr s' \<Rightarrow> body (b * cc) s')"
  using for_each_snoc [of "map (\<lambda>k. k * cc) [0 ..< b]" "b * cc" body s] by simp

lemma range_step_blocks:
  assumes "0 < cc"
  shows "range_step (nv * cc) cc = Inr (map (\<lambda>k. k * cc) [0 ..< nv])"
proof -
  have "(nv * cc + cc - 1) div cc = nv"
  proof -
    have "nv * cc + cc - 1 = (cc - 1) + nv * cc" using assms by simp
    then have "(nv * cc + cc - 1) div cc = (cc - 1) div cc + nv"
      using assms by (simp only: div_mult_self1)
    with assms show ?thesis by simp
  qed
  with assms show ?thesis by (simp add: range_step_def)
qed

lemma quantize_inner:
  assumes "i + cc \<le> length c" and "cc \<le> length b" and "k \<le> cc"
  shows "for_each [0 ..< k] (quantize_body cs b sc c i) q
         = Inr (q @ map (\<lambda>j. clamp_component cs (py_int ((c ! (i + j) - b ! j) / sc))) [0 ..< k])"
  using assms(3)
proof (induction k)
  case 0
  show ?case by simp
next
  case (Suc k)
  then have k: "k < cc" by simp
  with assms(1,2) have "i + k < length c" "k < length b" by simp_all
  then have "quantize_body cs b sc c i k q'
             = Inr (q' @ [clamp_component cs (py_int ((c ! (i + k) - b ! k) / sc))])" for q'
    by (simp add: quantize_body_def get_item_def)
  then have "for_each [0 ..< Suc k] (quantize_body cs b sc c i) q
      = Inr ((q @ map (\<lambda>j. clamp_component cs (py_int ((c ! (i + j) - b ! j) / sc))) [0 ..< k])
             @ [clamp_component cs (py_int ((c ! (i + k) - b ! k) / sc))])"
    unfolding for_each_upt_Suc using Suc.IH k by simp
  then show ?case by simp
qed

lemma upt_block:
  "[0 ..< Suc bl * cc] = [0 ..< bl * cc] @ map (\<lambda>j. bl * cc + j) [0 ..< cc]"
proof -
  have "[0 ..< bl * cc + cc] = [0 ..< bl * cc] @ [bl * cc ..< bl * cc + cc]"
    by (rule upt_add_eq_append) simp
  moreover have "[bl * cc ..< bl * cc + cc] = map (\<lambda>j. bl * cc + j) [0 ..< cc]"
    using map_add_upt [of "bl * cc" cc] by (simp add: add.commute)
  ultimately show ?thesis by (simp add: add.commute)
qed

lemma quantize_outer:
  assumes "0 < cc" and "length c = nv * cc" and "cc \<le> length b" and "bl \<le> nv"
  shows "for_each (map (\<lambda>k. k * cc) [0 ..< bl])
           (\<lambda>i. for_each [0 ..< cc] (quantize_body cs b sc c i)) []
         = Inr (map (\<lambda>k. clamp_component cs (py_int ((c ! k - b ! (k mod cc)) / sc)))
                  [0 ..< bl * cc])"
  using assms(4)
proof (induction bl)
  case 0
  show ?case by simp
next
  case (Suc bl)
  let ?Q = "\<lambda>k. clamp_component cs (py_int ((c ! k - b ! (k mod cc)) / sc))"
  from Suc.prems have "Suc bl * cc \<le> nv * cc" by (intro mult_le_mono1)
  with assms(2) have fit: "bl * cc + cc \<le> length c" by simp
  have inner: "for_each [0 ..< cc] (quantize_body cs b sc c (bl * cc)) (map ?Q [0 ..< bl * cc])
        = Inr (map ?Q [0 ..< bl * cc]
               @ map (\<lambda>j. clamp_component cs (py_int ((c ! (bl * cc + j) - b ! j) / sc))) [0 ..< cc])"
    by (rule quantize_inner [OF fit assms(3) order_refl])
  have "map (\<lambda>j. clamp_component cs (py_int ((c ! (bl * cc + j) - b ! j) / sc))) [0 ..< cc]
        = map (\<lambda>j. ?Q (bl * cc + j)) [0 ..< cc]"
    by (rule map_cong) simp_all
  then have "map ?Q [0 ..< bl * cc]
               @ map (\<lambda>j. clamp_component cs (py_int ((c ! (bl * cc + j) - b ! j) / sc))) [0 ..< cc]
        = map ?Q [0 ..< Suc bl * cc]"
    unfolding upt_block [of bl cc] by (simp add: comp_def)
  with inner Suc show ?case
    by (simp add: for_each_blocks_Suc del: upt_Suc)
qed

lemma quantize_result:
  assumes "0 < cc" and "length c = nv * cc" and "cc \<le> length b"
  shows "quantize cs cc b sc c
         = Inr (map (\<lambda>k. clamp_component cs (py_int ((c ! k - b ! (k mod cc)) / sc)))
                  [0 ..< length c])"
  using quantize_outer [OF assms order_refl, of cs sc] range_step_blocks [OF assms(1), of nv]
  by (simp add: quantize_def assms(2))

lemma block_index:
  fixes cc bl :: nat
  assumes "2 \<le> cc"
  shows "(bl * cc + 1) mod cc = 1" and "(bl * cc + 1) div cc = bl"
proof -
  have "(bl * cc + 1) mod cc = 1 mod cc" by (rule mod_mult_self3)
  with assms show "(bl * cc + 1) mod cc = 1" by simp
  have "(bl * cc + 1) div cc = bl + 1 div cc" using assms by (intro div_mult_self3) simp
  with assms show "(bl * cc + 1) div cc = bl" by simp
qed

lemma flip_outer:
  assumes cc: "2 \<le> cc" and len: "length c = nv * cc" and bl: "bl \<le> nv"
  shows "for_each (map (\<lambda>k. k * cc) [0 ..< bl]) flip_body c
         = Inr (map (\<lambda>k. if k mod cc = 1 \<and> k div cc < bl then 1 - c ! k else c ! k)
                  [0 ..< length c])"
  using bl
proof (induction bl)
  case 0
  show ?case by (simp add: map_nth)
next
  case (Suc bl)
  let ?cur = "map (\<lambda>k. if k mod cc = 1 \<and> k div cc < bl then 1 - c ! k else c ! k) [0 ..< length c]"
  let ?new = "map (\<lambda>k. if k mod cc = 1 \<and> k div cc < Suc bl then 1 - c ! k else c ! k) [0 ..< length c]"
  let ?i = "bl * cc + 1"
  from Suc.prems have "Suc bl * cc \<le> nv * cc" by (intro mult_le_mono1)
  with cc len have i: "?i < length c" by simp
  have md: "?i mod cc = 1" "?i div cc = bl" using block_index [OF cc] by blast+
  from i md have cur_i: "?cur ! ?i = c ! ?i" by simp
  have upd: "?cur[?i := 1 - c ! ?i] = ?new"
  proof (rule nth_equalityI)
    show "length (?cur[?i := 1 - c ! ?i]) = length ?new" by simp
  next
    fix k assume "k < length (?cur[?i := 1 - c ! ?i])"
    then have k: "k < length c" by simp
    show "?cur[?i := 1 - c ! ?i] ! k = ?new ! k"
    proof (cases "k = ?i")
      case True
      with k md show ?thesis by simp
    next
      case False
      have "\<not> (k mod cc = 1 \<and> k div cc = bl)"
      proof
        assume a: "k mod cc = 1 \<and> k div cc = bl"
        have "k = k div cc * cc + k mod cc" by simp
        with a have "k = ?i" by simp
        with False show False ..
      qed
      then have "(k mod cc = 1 \<and> k div cc < Suc bl) = (k mod cc = 1 \<and> k div cc < bl)"
        by (auto simp: less_Suc_eq)
      with k False show ?thesis by simp
    qed
  qed
  have "flip_body (bl * cc) ?cur = Inr (?cur[?i := 1 - c ! ?i])"
    using i cur_i by (simp add: flip_body_def get_item_def set_item_def)
  with upd have "flip_body (bl * cc) ?cur = Inr ?new" by simp
  moreover from Suc have "for_each (map (\<lambda>k. k * cc) [0 ..< bl]) flip_body c = Inr ?cur" by simp
  ultimately show ?case
    unfolding for_each_blocks_Suc by simp
qed

lemma flip_result:
  assumes "2 \<le> cc" and "length c = nv * cc"
  shows "flip_components cc c = Inr (flip_v cc c)"
proof -
  have cc: "0 < cc" using assms(1) by simp
  have "k div cc < nv" if "k < length c" for k
    using that assms(2) cc by (simp add: less_mult_imp_div_less)
  then have "map (\<lambda>k. if k mod cc = 1 \<and> k div cc < nv then 1 - c ! k else c ! k) [0 ..< length c]
        = flip_v cc c"
    unfolding flip_v_def by (intro map_cong) simp_all
  with flip_outer [OF assms order_refl] range_step_blocks [OF cc, of nv] show ?thesis
    by (simp add: flip_components_def assms(2))
qed

lemma length_flip_v: "length (flip_v cc c) = length c"
  by (simp add: flip_v_def)

lemma init_result:
  assumes "k \<le> length c"
  shows "for_each [0 ..< k] (init_body c) ([], []) = Inr (take k c, take k c)"
  using assms
proof (induction k)
  case 0
  show ?case by simp
next
  case (Suc k)
  then have k: "k < length c" by simp
  then have "init_body c k s = Inr (fst s @ [c ! k], snd s @ [c ! k])" for s
    by (simp add: init_body_def get_item_def)
  then show ?case
    unfolding for_each_upt_Suc using Suc.IH k by (simp add: take_Suc_conv_app_nth)
qed

lemma minmax_body_result:
  assumes "j < length mn" and "j < length mx" and "i + j < length c"
  shows "minmax_body c i j (mn, mx)
         = Inr (mn[j := min (mn ! j) (c ! (i + j))], mx[j := max (mx ! j) (c ! (i + j))])"
proof -
  have "(if mn ! j > c ! (i + j) then mn[j := c ! (i + j)] else mn) = mn[j := min (mn ! j) (c ! (i + j))]"
    by (simp add: min_def)
  moreover have "(if mx ! j < c ! (i + j) then mx[j := c ! (i + j)] else mx) = mx[j := max (mx ! j) (c ! (i + j))]"
    by (simp add: max_def)
  ultimately show ?thesis
    using assms by (simp add: minmax_body_def get_item_def Let_def)
qed

lemma minmax_inner:
  assumes "i + cc \<le> length c" and "length mn = cc" and "length mx = cc" and "k \<le> cc"
  shows "for_each [0 ..< k] (minmax_body c i) (mn, mx)
         = Inr (map (\<lambda>j. if j < k then min (mn ! j) (c ! (i + j)) else mn ! j) [0 ..< cc],
                map (\<lambda>j. if j < k then max (mx ! j) (c ! (i + j)) else mx ! j) [0 ..< cc])"
  using assms(4)
proof (induction k)
  case 0
  have "map ((!) mn) [0 ..< cc] = mn" "map ((!) mx) [0 ..< cc] = mx"
    using assms(2,3) map_nth [of mn] map_nth [of mx] by simp_all
  then show ?case by simp
next
  case (Suc k)
  let ?mn = "\<lambda>k. map (\<lambda>j. if j < k then min (mn ! j) (c ! (i + j)) else mn ! j) [0 ..< cc]"
  let ?mx = "\<lambda>k. map (\<lambda>j. if j < k then max (mx ! j) (c ! (i + j)) else mx ! j) [0 ..< cc]"
  from Suc.prems have k: "k < cc" by simp
  with assms(1) have ik: "i + k < length c" by simp
  have body: "minmax_body c i k (?mn k, ?mx k)
         = Inr ((?mn k)[k := min (?mn k ! k) (c ! (i + k))], (?mx k)[k := max (?mx k ! k) (c ! (i + k))])"
    using k ik by (intro minmax_body_result) simp_all
  have mn: "(?mn k)[k := min (?mn k ! k) (c ! (i + k))] = ?mn (Suc k)"
    using k by (intro nth_equalityI) (simp_all add: nth_list_update less_Suc_eq)
  have mx: "(?mx k)[k := max (?mx k ! k) (c ! (i + k))] = ?mx (Suc k)"
    using k by (intro nth_equalityI) (simp_all add: nth_list_update less_Suc_eq)
  from Suc.IH k have "for_each [0 ..< k] (minmax_body c i) (mn, mx) = Inr (?mn k, ?mx k)" by simp
  with body mn mx show ?case
    unfolding for_each_upt_Suc by simp
qed

lemma minmax_block:
  assumes "i + cc \<le> length c" and "length mn = cc" and "length mx = cc"
  shows "for_each [0 ..< cc] (minmax_body c i) (mn, mx)
         = Inr (map (\<lambda>j. min (mn ! j) (c ! (i + j))) [0 ..< cc],
                map (\<lambda>j. max (mx ! j) (c ! (i + j))) [0 ..< cc])"
proof -
  have "map (\<lambda>j. if j < cc then min (mn ! j) (c ! (i + j)) else mn ! j) [0 ..< cc]
        = map (\<lambda>j. min (mn ! j) (c ! (i + j))) [0 ..< cc]"
    by (intro map_cong) simp_all
  moreover have "map (\<lambda>j. if j < cc then max (mx ! j) (c ! (i + j)) else mx ! j) [0 ..< cc]
        = map (\<lambda>j. max (mx ! j) (c ! (i + j))) [0 ..< cc]"
    by (intro map_cong) simp_all
  ultimately show ?thesis
    using minmax_inner [OF assms order_refl] by simp
qed

lemma Min_insert_insert:
  fixes a x :: real
  assumes "finite S"
  shows "Min (insert a (insert x S)) = min (Min (insert a S)) x"
proof -
  have "Min (insert x (insert a S)) = min x (Min (insert a S))"
    using assms by (intro Min_insert) simp_all
  then show ?thesis by (simp add: insert_commute min.commute)
qed

lemma Max_insert_insert:
  fixes a x :: real
  assumes "finite S"
  shows "Max (insert a (insert x S)) = max (Max (insert a S)) x"
proof -
  have "Max (insert x (insert a S)) = max x (Max (insert a S))"
    using assms by (intro Max_insert) simp_all
  then show ?thesis by (simp add: insert_commute max.commute)
qed

lemma minmax_outer:
  assumes cc: "0 < cc" and len: "length c = nv * cc" and bl: "bl \<le> nv" and nv: "0 < nv"
  shows "for_each (map (\<lambda>k. k * cc) [0 ..< bl]) (\<lambda>i. for_each [0 ..< cc] (minmax_body c i))
           (take cc c, take cc c)
         = Inr (map (\<lambda>j. Min (insert (c ! j) ((\<lambda>b. c ! (b * cc + j)) ` {..<bl}))) [0 ..< cc],
                map (\<lambda>j. Max (insert (c ! j) ((\<lambda>b. c ! (b * cc + j)) ` {..<bl}))) [0 ..< cc])"
  using bl
proof (induction bl)
  case 0
  from nv have "1 * cc \<le> nv * cc" by (intro mult_le_mono1) simp
  with len have "cc \<le> length c" by simp
  then have "take cc c = map (\<lambda>j. c ! j) [0 ..< cc]"
    by (intro nth_equalityI) simp_all
  then show ?case by simp
next
  case (Suc bl)
  let ?mn = "\<lambda>bl. map (\<lambda>j. Min (insert (c ! j) ((\<lambda>b. c ! (b * cc + j)) ` {..<bl}))) [0 ..< cc]"
  let ?mx = "\<lambda>bl. map (\<lambda>j. Max (insert (c ! j) ((\<lambda>b. c ! (b * cc + j)) ` {..<bl}))) [0 ..< cc]"
  from Suc.prems have "Suc bl * cc \<le> nv * cc" by (intro mult_le_mono1)
  with len have fit: "bl * cc + cc \<le> length c" by simp
  have block: "for_each [0 ..< cc] (minmax_body c (bl * cc)) (?mn bl, ?mx bl)
      = Inr (map (\<lambda>j. min (?mn bl ! j) (c ! (bl * cc + j))) [0 ..< cc],
             map (\<lambda>j. max (?mx bl ! j) (c ! (bl * cc + j))) [0 ..< cc])"
    using fit by (intro minmax_block) simp_all
  have mn: "map (\<lambda>j. min (?mn bl ! j) (c ! (bl * cc + j))) [0 ..< cc] = ?mn (Suc bl)"
    by (intro map_cong) (simp_all add: lessThan_Suc Min_insert_insert del: Min_insert)
  have mx: "map (\<lambda>j. max (?mx bl ! j) (c ! (bl * cc + j))) [0 ..< cc] = ?mx (Suc bl)"
    by (intro map_cong) (simp_all add: lessThan_Suc Max_insert_insert del: Max_insert)
  from Suc have "for_each (map (\<lambda>k. k * cc) [0 ..< bl]) (\<lambda>i. for_each [0 ..< cc] (minmax_body c i))
           (take cc c, take cc c) = Inr (?mn bl, ?mx bl)" by simp
  with block mn mx show ?case
    unfolding for_each_blocks_Suc by simp
qed

lemma column_set:
  assumes "0 < cc" and "length c = nv * cc" and "0 < nv"
  shows "insert (c ! j) ((\<lambda>b. c ! (b * cc + j)) ` {..<nv}) = set (column c cc j)"
proof -
  have "length c div cc = nv" using assms by simp
  then have col: "set (column c cc j) = (\<lambda>b. c ! (b * cc + j)) ` {..<nv}"
    by (simp add: column_def atLeast0LessThan)
  have "c ! j = (\<lambda>b. c ! (b * cc + j)) 0" by simp
  moreover have "0 \<in> {..<nv}" using assms(3) by simp
  ultimately have "c ! j \<in> (\<lambda>b. c ! (b * cc + j)) ` {..<nv}" by (rule image_eqI)
  with col show ?thesis by (simp add: insert_absorb)
qed

lemma find_min_max_result:
  assumes "0 < cc" and "length c = nv * cc" and "0 < nv"
  shows "find_min_max cc c = Inr (map (\<lambda>j. Min (set (column c cc j))) [0 ..< cc],
                                  map (\<lambda>j. Max (set (column c cc j))) [0 ..< cc])"
proof -
  from assms(3) have "1 * cc \<le> nv * cc" by (intro mult_le_mono1) simp
  with assms(2) have "cc \<le> length c" by simp
  then have init: "for_each [0 ..< cc] (init_body c) ([], []) = Inr (take cc c, take cc c)"
    by (rule init_result)
  show ?thesis
    unfolding find_min_max_def init assms(2) range_step_blocks [OF assms(1)]
    using minmax_outer [OF assms(1,2) order_refl assms(3)]
    by (simp add: column_set [OF assms] assms(2))
qed

lemma Max_upt_Suc:
  fixes f :: "nat \<Rightarrow> real"
  shows "Max (set (0 # map f [0 ..< Suc k])) = max (Max (set (0 # map f [0 ..< k]))) (f k)"
proof -
  have "set (0 # map f [0 ..< Suc k]) = insert (f k) (set (0 # map f [0 ..< k]))" by auto
  moreover have "Max (insert (f k) (set (0 # map f [0 ..< k]))) = max (f k) (Max (set (0 # map f [0 ..< k])))"
    by (intro Max_insert) simp_all
  ultimately show ?thesis by (simp only: max.commute)
qed

lemma bias_body_result:
  assumes "k < length mn" and "k < length mx" and "k < length b"
  shows "bias_body mn mx k (b, m)
         = Inr (b[k := mn ! k * 0.5 + mx ! k * 0.5], max m (mx ! k - mn ! k))"
  using assms by (simp add: bias_body_def get_item_def set_item_def Let_def max_def)

lemma bias_loop:
  assumes "length mn = cc" and "length mx = cc" and "cc \<le> length b0" and "k \<le> cc"
  shows "for_each [0 ..< k] (bias_body mn mx) (b0, 0)
         = Inr (map (\<lambda>j. if j < k then mn ! j * 0.5 + mx ! j * 0.5 else b0 ! j) [0 ..< length b0],
                Max (set (0 # map (\<lambda>j. mx ! j - mn ! j) [0 ..< k])))"
  using assms(4)
proof (induction k)
  case 0
  have "map ((!) b0) [0 ..< length b0] = b0" by (rule map_nth)
  then show ?case by simp
next
  case (Suc k)
  let ?b = "\<lambda>k. map (\<lambda>j. if j < k then mn ! j * 0.5 + mx ! j * 0.5 else b0 ! j) [0 ..< length b0]"
  let ?m = "\<lambda>k. Max (set (0 # map (\<lambda>j. mx ! j - mn ! j) [0 ..< k]))"
  from Suc.prems have k: "k < cc" by simp
  with assms(1-3) have kk: "k < length mn" "k < length mx" "k < length (?b k)" by simp_all
  have body: "bias_body mn mx k (?b k, ?m k)
      = Inr ((?b k)[k := mn ! k * 0.5 + mx ! k * 0.5], max (?m k) (mx ! k - mn ! k))"
    using kk by (rule bias_body_result)
  have b: "(?b k)[k := mn ! k * 0.5 + mx ! k * 0.5] = ?b (Suc k)"
    by (intro nth_equalityI) (simp_all add: nth_list_update less_Suc_eq)
  have m: "max (?m k) (mx ! k - mn ! k) = ?m (Suc k)"
    by (rule Max_upt_Suc [symmetric])
  from Suc.IH k have "for_each [0 ..< k] (bias_body mn mx) (b0, 0) = Inr (?b k, ?m k)" by simp
  with body b m show ?case
    unfolding for_each_upt_Suc by simp
qed

lemma range_and_bias_result:
  assumes "cc \<le> length b0"
  shows "range_and_bias cc (map (\<lambda>j. Min (set (column c cc j))) [0 ..< cc],
                            map (\<lambda>j. Max (set (column c cc j))) [0 ..< cc]) b0
         = Inr (map (\<lambda>j. if j < cc then midpoint c cc j else b0 ! j) [0 ..< length b0],
                max_range c cc)"
proof -
  let ?mn = "map (\<lambda>j. Min (set (column c cc j))) [0 ..< cc]"
  let ?mx = "map (\<lambda>j. Max (set (column c cc j))) [0 ..< cc]"
  have loop: "for_each [0 ..< cc] (bias_body ?mn ?mx) (b0, 0)
         = Inr (map (\<lambda>j. if j < cc then ?mn ! j * 0.5 + ?mx ! j * 0.5 else b0 ! j) [0 ..< length b0],
                Max (set (0 # map (\<lambda>j. ?mx ! j - ?mn ! j) [0 ..< cc])))"
    by (rule bias_loop [OF _ _ assms order_refl]) simp_all
  have b: "map (\<lambda>j. if j < cc then ?mn ! j * 0.5 + ?mx ! j * 0.5 else b0 ! j) [0 ..< length b0]
         = map (\<lambda>j. if j < cc then midpoint c cc j else b0 ! j) [0 ..< length b0]"
    by (intro map_cong) (simp_all add: midpoint_def)
  have "map (\<lambda>j. ?mx ! j - ?mn ! j) [0 ..< cc]
         = map (\<lambda>j. Max (set (column c cc j)) - Min (set (column c cc j))) [0 ..< cc]"
    by (intro map_cong) simp_all
  then have m: "Max (set (0 # map (\<lambda>j. ?mx ! j - ?mn ! j) [0 ..< cc])) = max_range c cc"
    by (simp only: max_range_def)
  show ?thesis
    unfolding range_and_bias_def fst_conv snd_conv loop b m ..
qed

lemma compute_scale_shared:
  "compute_scale cs (max_range c cc) = shared_scale c cc cs"
  by (simp add: compute_scale_def shared_scale_def max_value_def Let_def)

lemma quantizable_blocks:
  assumes "quantizable va c"
  shows "0 < componentCount va" and "length c = (length c div componentCount va) * componentCount va"
    and "0 < length c div componentCount va" and "componentCount va \<le> length (bias va)"
    and "length (raw_values va c) = length c"
    and "components va = FloatArray c" and "autoscaling va"
proof -
  from assms show cc: "0 < componentCount va" by (simp add: quantizable_def)
  from assms have md: "length c mod componentCount va = 0" by (simp add: quantizable_def)
  then show len: "length c = (length c div componentCount va) * componentCount va"
    by (simp add: mod_0_imp_dvd)
  from assms have "0 < length c" by (simp add: quantizable_def)
  with len show "0 < length c div componentCount va"
    by (cases "length c div componentCount va") simp_all
  from assms show "componentCount va \<le> length (bias va)" by (simp add: quantizable_def)
  show "length (raw_values va c) = length c" by (simp add: raw_values_def flip_v_def)
  from assms show "components va = FloatArray c" "autoscaling va" by (simp_all add: quantizable_def)
qed

lemma flip_step:
  assumes "quantizable va c"
  shows "(if uvmapping va then flip_components (componentCount va) c else Inr c)
         = Inr (raw_values va c)"
proof (cases "uvmapping va")
  case True
  with assms have "2 \<le> componentCount va" by (simp add: quantizable_def)
  from flip_result [OF this quantizable_blocks(2) [OF assms]] True
  show ?thesis by (simp add: raw_values_def)
next
  case False
  then show ?thesis by (simp add: raw_values_def)
qed

lemma internalAutoScaling_result:
  assumes q: "quantizable va c"
  shows "internalAutoScaling va
         = Inr (va\<lparr>bias := map (\<lambda>j. if j < componentCount va
                                    then midpoint (raw_values va c) (componentCount va) j
                                    else bias va ! j) [0 ..< length (bias va)],
                  scale := shared_scale (raw_values va c) (componentCount va) (componentSize va),
                  components := createComponentArray (componentSize va)
                    (truncated_components va (raw_values va c)
                       (map (\<lambda>j. if j < componentCount va
                                 then midpoint (raw_values va c) (componentCount va) j
                                 else bias va ! j) [0 ..< length (bias va)])
                       (shared_scale (raw_values va c) (componentCount va) (componentSize va)))\<rparr>)"
proof -
  let ?cc = "componentCount va" and ?cs = "componentSize va" and ?raw = "raw_values va c"
  let ?nv = "length c div ?cc"
  let ?B = "map (\<lambda>j. if j < ?cc then midpoint ?raw ?cc j else bias va ! j) [0 ..< length (bias va)]"
  let ?sc = "shared_scale ?raw ?cc ?cs"
  note qb = quantizable_blocks [OF q]
  from qb(2,5) have len: "length ?raw = ?nv * ?cc" by simp
  have s1: "(if uvmapping va then flip_components ?cc c else Inr c) = Inr ?raw"
    by (rule flip_step [OF q])
  have s2: "find_min_max ?cc ?raw = Inr (map (\<lambda>j. Min (set (column ?raw ?cc j))) [0 ..< ?cc],
                                        map (\<lambda>j. Max (set (column ?raw ?cc j))) [0 ..< ?cc])"
    by (rule find_min_max_result [OF qb(1) len qb(3)])
  have s3: "range_and_bias ?cc (map (\<lambda>j. Min (set (column ?raw ?cc j))) [0 ..< ?cc],
                                map (\<lambda>j. Max (set (column ?raw ?cc j))) [0 ..< ?cc]) (bias va)
            = Inr (?B, max_range ?raw ?cc)"
    by (rule range_and_bias_result [OF qb(4)])
  have s4: "compute_scale ?cs (max_range ?raw ?cc) = ?sc"
    by (rule compute_scale_shared)
  have "?cc \<le> length ?B" using qb(4) by simp
  from quantize_result [OF qb(1) len this]
  have s5: "quantize ?cs ?cc ?B ?sc ?raw = Inr (truncated_components va ?raw ?B ?sc)"
    by (simp add: truncated_components_def)
  show ?thesis
    unfolding internalAutoScaling_def qb(6) component_array.case s1 s2 s3 sum.case fst_conv snd_conv
      s4 Let_def s5
    using qb(7) by simp
qed

lemma internalAutoScaling_frozen:
  assumes "internalAutoScaling va = Inr va'"
  shows "internalAutoScaling va' = Inr va'"
proof (cases "components va")
  case (FloatArray c0)
  show ?thesis
  proof (cases "autoscaling va")
    case True
    with FloatArray assms obtain q
      where "components va' = createComponentArray (componentSize va) q"
      by (auto simp: internalAutoScaling_def Let_def split: sum.splits if_splits)
    then show ?thesis
      by (simp add: internalAutoScaling_def createComponentArray_def)
  next
    case False
    with FloatArray assms show ?thesis by (simp add: internalAutoScaling_def)
  qed
next
  case (ByteArray xs)
  with assms show ?thesis by (simp add: internalAutoScaling_def)
next
  case (ShortArray xs)
  with assms show ?thesis by (simp add: internalAutoScaling_def)
qed

lemma uv_example_quantizable: "quantizable uv_example uv_floats"
  by (simp add: quantizable_def uv_example_def M3GVertexArray_init_def uv_floats_def)



lemma length_truncated_components:
  "length (truncated_components va c b sc) = length c"
  by (simp add: truncated_components_def)




text \<open>
  Claim C7. A second run of \<open>internalAutoScaling\<close> changes nothing: whenever a run returns an array,
  a run on that array returns it as it is, components, bias and scale included. And a first
  run on an autoscaled float array of whole vertices does quantize: it returns an array of
  integers, one for each float, on which the second run is the identity.
\<close>

theorem quantization_idempotent:
  "(\<forall>va'. internalAutoScaling va = Inr va' \<longrightarrow> internalAutoScaling va' = Inr va')
   \<and> (\<forall>c. quantizable va c \<longrightarrow>
         (\<exists>vq q. internalAutoScaling va = Inr vq
            \<and> components vq = createComponentArray (componentSize va) q
            \<and> length q = length c
            \<and> internalAutoScaling vq = Inr vq))"
proof (intro conjI allI impI)
  fix va' assume "internalAutoScaling va = Inr va'"
  then show "internalAutoScaling va' = Inr va'" by (rule internalAutoScaling_frozen)
next
  fix c assume q: "quantizable va c"
  let ?B = "map (\<lambda>j. if j < componentCount va
                      then midpoint (raw_values va c) (componentCount va) j
                      else bias va ! j) [0 ..< length (bias va)]"
  let ?sc = "shared_scale (raw_values va c) (componentCount va) (componentSize va)"
  let ?q = "truncated_components va (raw_values va c) ?B ?sc"
  let ?va = "va\<lparr>bias := ?B, scale := ?sc,
                components := createComponentArray (componentSize va) ?q\<rparr>"
  have run: "internalAutoScaling va = Inr ?va"
    by (rule internalAutoScaling_result [OF q])
  then have again: "internalAutoScaling ?va = Inr ?va" by (rule internalAutoScaling_frozen)
  have comp: "components ?va = createComponentArray (componentSize va) ?q" by simp
  have len: "length ?q = length c"
    by (simp only: length_truncated_components quantizable_blocks(5) [OF q])
  from run comp len again
  show "\<exists>vq q. internalAutoScaling va = Inr vq
            \<and> components vq = createComponentArray (componentSize va) q
            \<and> length q = length c
            \<and> internalAutoScaling vq = Inr vq"
    by blast
qed

theorem quantization_idempotent_witness:
  "quantizable uv_example uv_floats
   \<and> (\<exists>vq q. internalAutoScaling uv_example = Inr vq
          \<and> components vq = createComponentArray (componentSize uv_example) q
          \<and> length q = length uv_floats
          \<and> internalAutoScaling vq = Inr vq)"
proof -
  have q: "quantizable uv_example uv_floats"
    by (simp add: quantizable_def uv_example_def M3GVertexArray_init_def uv_floats_def)
  from quantization_idempotent [of uv_example] have
    "quantizable uv_example uv_floats \<longrightarrow>
       (\<exists>vq q. internalAutoScaling uv_example = Inr vq
          \<and> components vq = createComponentArray (componentSize uv_example) q
          \<and> length q = length uv_floats
          \<and> internalAutoScaling vq = Inr vq)"
    by blast
  with q show ?thesis by blast
qed

end
